theory Spec2Isabelle
  imports Main "HOL-Library.Word"
begin

unbundle bit_operations_syntax

section \<open>Bytes and buffers\<close>

type_synonym byte = "8 word"

text \<open>Bytewise exclusive or of two buffers, over the shorter of the two.\<close>

definition xor_bytes :: "byte list \<Rightarrow> byte list \<Rightarrow> byte list" where
  "xor_bytes a b = map2 (XOR) a b"

section \<open>AES-256 (FIPS 197), the block primitive behind \<open>EVP_aes_256_cbc()\<close>\<close>

text \<open>
  The program obtains its cipher from the library call \<open>EVP_aes_256_cbc()\<close>. The block
  transformation is written out here as the standard defines it: the state is the 16 input
  bytes in order (byte \<open>r + 4c\<close> is row \<open>r\<close>, column \<open>c\<close>), the key schedule works on
  big-endian 32-bit words.
\<close>

text \<open>
  The substitution table and its inverse, as the 16 by 16 grid of the standard: the row
  is the high nibble of the argument, the column its low nibble.
\<close>

definition sbox_table :: "byte list list" where
  "sbox_table = [
   [0x63, 0x7c, 0x77, 0x7b, 0xf2, 0x6b, 0x6f, 0xc5, 0x30, 0x01, 0x67, 0x2b, 0xfe, 0xd7, 0xab, 0x76],
   [0xca, 0x82, 0xc9, 0x7d, 0xfa, 0x59, 0x47, 0xf0, 0xad, 0xd4, 0xa2, 0xaf, 0x9c, 0xa4, 0x72, 0xc0],
   [0xb7, 0xfd, 0x93, 0x26, 0x36, 0x3f, 0xf7, 0xcc, 0x34, 0xa5, 0xe5, 0xf1, 0x71, 0xd8, 0x31, 0x15],
   [0x04, 0xc7, 0x23, 0xc3, 0x18, 0x96, 0x05, 0x9a, 0x07, 0x12, 0x80, 0xe2, 0xeb, 0x27, 0xb2, 0x75],
   [0x09, 0x83, 0x2c, 0x1a, 0x1b, 0x6e, 0x5a, 0xa0, 0x52, 0x3b, 0xd6, 0xb3, 0x29, 0xe3, 0x2f, 0x84],
   [0x53, 0xd1, 0x00, 0xed, 0x20, 0xfc, 0xb1, 0x5b, 0x6a, 0xcb, 0xbe, 0x39, 0x4a, 0x4c, 0x58, 0xcf],
   [0xd0, 0xef, 0xaa, 0xfb, 0x43, 0x4d, 0x33, 0x85, 0x45, 0xf9, 0x02, 0x7f, 0x50, 0x3c, 0x9f, 0xa8],
   [0x51, 0xa3, 0x40, 0x8f, 0x92, 0x9d, 0x38, 0xf5, 0xbc, 0xb6, 0xda, 0x21, 0x10, 0xff, 0xf3, 0xd2],
   [0xcd, 0x0c, 0x13, 0xec, 0x5f, 0x97, 0x44, 0x17, 0xc4, 0xa7, 0x7e, 0x3d, 0x64, 0x5d, 0x19, 0x73],
   [0x60, 0x81, 0x4f, 0xdc, 0x22, 0x2a, 0x90, 0x88, 0x46, 0xee, 0xb8, 0x14, 0xde, 0x5e, 0x0b, 0xdb],
   [0xe0, 0x32, 0x3a, 0x0a, 0x49, 0x06, 0x24, 0x5c, 0xc2, 0xd3, 0xac, 0x62, 0x91, 0x95, 0xe4, 0x79],
   [0xe7, 0xc8, 0x37, 0x6d, 0x8d, 0xd5, 0x4e, 0xa9, 0x6c, 0x56, 0xf4, 0xea, 0x65, 0x7a, 0xae, 0x08],
   [0xba, 0x78, 0x25, 0x2e, 0x1c, 0xa6, 0xb4, 0xc6, 0xe8, 0xdd, 0x74, 0x1f, 0x4b, 0xbd, 0x8b, 0x8a],
   [0x70, 0x3e, 0xb5, 0x66, 0x48, 0x03, 0xf6, 0x0e, 0x61, 0x35, 0x57, 0xb9, 0x86, 0xc1, 0x1d, 0x9e],
   [0xe1, 0xf8, 0x98, 0x11, 0x69, 0xd9, 0x8e, 0x94, 0x9b, 0x1e, 0x87, 0xe9, 0xce, 0x55, 0x28, 0xdf],
   [0x8c, 0xa1, 0x89, 0x0d, 0xbf, 0xe6, 0x42, 0x68, 0x41, 0x99, 0x2d, 0x0f, 0xb0, 0x54, 0xbb, 0x16]]"

definition inv_sbox_table :: "byte list list" where
  "inv_sbox_table = [
   [0x52, 0x09, 0x6a, 0xd5, 0x30, 0x36, 0xa5, 0x38, 0xbf, 0x40, 0xa3, 0x9e, 0x81, 0xf3, 0xd7, 0xfb],
   [0x7c, 0xe3, 0x39, 0x82, 0x9b, 0x2f, 0xff, 0x87, 0x34, 0x8e, 0x43, 0x44, 0xc4, 0xde, 0xe9, 0xcb],
   [0x54, 0x7b, 0x94, 0x32, 0xa6, 0xc2, 0x23, 0x3d, 0xee, 0x4c, 0x95, 0x0b, 0x42, 0xfa, 0xc3, 0x4e],
   [0x08, 0x2e, 0xa1, 0x66, 0x28, 0xd9, 0x24, 0xb2, 0x76, 0x5b, 0xa2, 0x49, 0x6d, 0x8b, 0xd1, 0x25],
   [0x72, 0xf8, 0xf6, 0x64, 0x86, 0x68, 0x98, 0x16, 0xd4, 0xa4, 0x5c, 0xcc, 0x5d, 0x65, 0xb6, 0x92],
   [0x6c, 0x70, 0x48, 0x50, 0xfd, 0xed, 0xb9, 0xda, 0x5e, 0x15, 0x46, 0x57, 0xa7, 0x8d, 0x9d, 0x84],
   [0x90, 0xd8, 0xab, 0x00, 0x8c, 0xbc, 0xd3, 0x0a, 0xf7, 0xe4, 0x58, 0x05, 0xb8, 0xb3, 0x45, 0x06],
   [0xd0, 0x2c, 0x1e, 0x8f, 0xca, 0x3f, 0x0f, 0x02, 0xc1, 0xaf, 0xbd, 0x03, 0x01, 0x13, 0x8a, 0x6b],
   [0x3a, 0x91, 0x11, 0x41, 0x4f, 0x67, 0xdc, 0xea, 0x97, 0xf2, 0xcf, 0xce, 0xf0, 0xb4, 0xe6, 0x73],
   [0x96, 0xac, 0x74, 0x22, 0xe7, 0xad, 0x35, 0x85, 0xe2, 0xf9, 0x37, 0xe8, 0x1c, 0x75, 0xdf, 0x6e],
   [0x47, 0xf1, 0x1a, 0x71, 0x1d, 0x29, 0xc5, 0x89, 0x6f, 0xb7, 0x62, 0x0e, 0xaa, 0x18, 0xbe, 0x1b],
   [0xfc, 0x56, 0x3e, 0x4b, 0xc6, 0xd2, 0x79, 0x20, 0x9a, 0xdb, 0xc0, 0xfe, 0x78, 0xcd, 0x5a, 0xf4],
   [0x1f, 0xdd, 0xa8, 0x33, 0x88, 0x07, 0xc7, 0x31, 0xb1, 0x12, 0x10, 0x59, 0x27, 0x80, 0xec, 0x5f],
   [0x60, 0x51, 0x7f, 0xa9, 0x19, 0xb5, 0x4a, 0x0d, 0x2d, 0xe5, 0x7a, 0x9f, 0x93, 0xc9, 0x9c, 0xef],
   [0xa0, 0xe0, 0x3b, 0x4d, 0xae, 0x2a, 0xf5, 0xb0, 0xc8, 0xeb, 0xbb, 0x3c, 0x83, 0x53, 0x99, 0x61],
   [0x17, 0x2b, 0x04, 0x7e, 0xba, 0x77, 0xd6, 0x26, 0xe1, 0x69, 0x14, 0x63, 0x55, 0x21, 0x0c, 0x7d]]"

definition sbox :: "byte \<Rightarrow> byte" where
  "sbox x = sbox_table ! unat (drop_bit 4 x) ! unat (x AND 0x0f)"

definition inv_sbox :: "byte \<Rightarrow> byte" where
  "inv_sbox x = inv_sbox_table ! unat (drop_bit 4 x) ! unat (x AND 0x0f)"

text \<open>Multiplication by \<open>x\<close> in GF(2^8) modulo \<open>x^8 + x^4 + x^3 + x + 1\<close>.\<close>

definition xtime :: "byte \<Rightarrow> byte" where
  "xtime a = (if bit a 7 then push_bit 1 a XOR 0x1b else push_bit 1 a)"

definition gmul2 :: "byte \<Rightarrow> byte" where "gmul2 a = xtime a"
definition gmul3 :: "byte \<Rightarrow> byte" where "gmul3 a = xtime a XOR a"
definition gmul9 :: "byte \<Rightarrow> byte" where
  "gmul9 a = xtime (xtime (xtime a)) XOR a"
definition gmul11 :: "byte \<Rightarrow> byte" where
  "gmul11 a = xtime (xtime (xtime a)) XOR xtime a XOR a"
definition gmul13 :: "byte \<Rightarrow> byte" where
  "gmul13 a = xtime (xtime (xtime a)) XOR xtime (xtime a) XOR a"
definition gmul14 :: "byte \<Rightarrow> byte" where
  "gmul14 a = xtime (xtime (xtime a)) XOR xtime (xtime a) XOR xtime a"

definition sub_bytes :: "byte list \<Rightarrow> byte list" where
  "sub_bytes s = map sbox s"

definition inv_sub_bytes :: "byte list \<Rightarrow> byte list" where
  "inv_sub_bytes s = map inv_sbox s"

definition shift_rows :: "byte list \<Rightarrow> byte list" where
  "shift_rows s = map (\<lambda>i. s ! i) [0, 5, 10, 15, 4, 9, 14, 3, 8, 13, 2, 7, 12, 1, 6, 11]"

definition inv_shift_rows :: "byte list \<Rightarrow> byte list" where
  "inv_shift_rows s = map (\<lambda>i. s ! i) [0, 13, 10, 7, 4, 1, 14, 11, 8, 5, 2, 15, 12, 9, 6, 3]"

definition mix_column :: "byte \<Rightarrow> byte \<Rightarrow> byte \<Rightarrow> byte \<Rightarrow> byte list" where
  "mix_column a0 a1 a2 a3 =
     [gmul2 a0 XOR gmul3 a1 XOR a2 XOR a3,
      a0 XOR gmul2 a1 XOR gmul3 a2 XOR a3,
      a0 XOR a1 XOR gmul2 a2 XOR gmul3 a3,
      gmul3 a0 XOR a1 XOR a2 XOR gmul2 a3]"

definition inv_mix_column :: "byte \<Rightarrow> byte \<Rightarrow> byte \<Rightarrow> byte \<Rightarrow> byte list" where
  "inv_mix_column a0 a1 a2 a3 =
     [gmul14 a0 XOR gmul11 a1 XOR gmul13 a2 XOR gmul9 a3,
      gmul9 a0 XOR gmul14 a1 XOR gmul11 a2 XOR gmul13 a3,
      gmul13 a0 XOR gmul9 a1 XOR gmul14 a2 XOR gmul11 a3,
      gmul11 a0 XOR gmul13 a1 XOR gmul9 a2 XOR gmul14 a3]"

definition mix_columns :: "byte list \<Rightarrow> byte list" where
  "mix_columns s =
     mix_column (s ! 0) (s ! 1) (s ! 2) (s ! 3) @
     mix_column (s ! 4) (s ! 5) (s ! 6) (s ! 7) @
     mix_column (s ! 8) (s ! 9) (s ! 10) (s ! 11) @
     mix_column (s ! 12) (s ! 13) (s ! 14) (s ! 15)"

definition inv_mix_columns :: "byte list \<Rightarrow> byte list" where
  "inv_mix_columns s =
     inv_mix_column (s ! 0) (s ! 1) (s ! 2) (s ! 3) @
     inv_mix_column (s ! 4) (s ! 5) (s ! 6) (s ! 7) @
     inv_mix_column (s ! 8) (s ! 9) (s ! 10) (s ! 11) @
     inv_mix_column (s ! 12) (s ! 13) (s ! 14) (s ! 15)"

definition add_round_key :: "byte list \<Rightarrow> byte list \<Rightarrow> byte list" where
  "add_round_key rk s = xor_bytes s rk"

subsection \<open>Key schedule\<close>

definition word_of_bytes :: "byte \<Rightarrow> byte \<Rightarrow> byte \<Rightarrow> byte \<Rightarrow> 32 word" where
  "word_of_bytes b0 b1 b2 b3 =
     push_bit 24 (ucast b0) OR push_bit 16 (ucast b1) OR push_bit 8 (ucast b2) OR ucast b3"

definition bytes_of_word :: "32 word \<Rightarrow> byte list" where
  "bytes_of_word w =
     [ucast (drop_bit 24 w), ucast (drop_bit 16 w), ucast (drop_bit 8 w), ucast w]"

definition sub_word :: "32 word \<Rightarrow> 32 word" where
  "sub_word w = word_of_bytes (sbox (ucast (drop_bit 24 w))) (sbox (ucast (drop_bit 16 w)))
                              (sbox (ucast (drop_bit 8 w))) (sbox (ucast w))"

definition rot_word :: "32 word \<Rightarrow> 32 word" where
  "rot_word w = push_bit 8 w OR drop_bit 24 w"

fun rcon :: "nat \<Rightarrow> byte" where
  "rcon 0 = 0"
| "rcon (Suc 0) = 1"
| "rcon (Suc n) = xtime (rcon n)"

definition key_words :: "byte list \<Rightarrow> 32 word list" where
  "key_words key =
     map (\<lambda>i. word_of_bytes (key ! (4 * i)) (key ! (4 * i + 1)) (key ! (4 * i + 2)) (key ! (4 * i + 3)))
         [0..<8]"

text \<open>
  One step of the schedule loop of the standard (\<open>Nk = 8\<close>): the word with index \<open>i\<close>
  is appended to the words \<open>w\<close> produced so far.
\<close>

definition expand_step :: "nat \<Rightarrow> 32 word list \<Rightarrow> 32 word list" where
  "expand_step i w =
     (let temp = w ! (i - 1);
          temp' = (if i mod 8 = 0
                   then sub_word (rot_word temp) XOR push_bit 24 (ucast (rcon (i div 8)))
                   else if i mod 8 = 4 then sub_word temp
                   else temp)
      in w @ [w ! (i - 8) XOR temp'])"

definition key_expansion :: "byte list \<Rightarrow> 32 word list" where
  "key_expansion key = fold expand_step [8..<60] (key_words key)"

definition round_key :: "32 word list \<Rightarrow> nat \<Rightarrow> byte list" where
  "round_key w r = concat (map bytes_of_word (take 4 (drop (4 * r) w)))"

definition round_keys :: "byte list \<Rightarrow> byte list list" where
  "round_keys key = (let w = key_expansion key in map (round_key w) [0..<15])"

subsection \<open>Cipher and inverse cipher\<close>

fun enc_rounds :: "byte list list \<Rightarrow> byte list \<Rightarrow> byte list" where
  "enc_rounds [] s = s"
| "enc_rounds (rk # rks) s =
     enc_rounds rks (add_round_key rk (mix_columns (shift_rows (sub_bytes s))))"

fun dec_rounds :: "byte list list \<Rightarrow> byte list \<Rightarrow> byte list" where
  "dec_rounds [] s = s"
| "dec_rounds (rk # rks) s =
     dec_rounds rks (inv_mix_columns (add_round_key rk (inv_sub_bytes (inv_shift_rows s))))"

definition cipher :: "byte list list \<Rightarrow> byte list \<Rightarrow> byte list" where
  "cipher rks inp =
     (let s = add_round_key (hd rks) inp;
          s = enc_rounds (butlast (tl rks)) s
      in add_round_key (last rks) (shift_rows (sub_bytes s)))"

definition inv_cipher :: "byte list list \<Rightarrow> byte list \<Rightarrow> byte list" where
  "inv_cipher rks inp =
     (let s = add_round_key (last rks) inp;
          s = dec_rounds (rev (butlast (tl rks))) s
      in add_round_key (hd rks) (inv_sub_bytes (inv_shift_rows s)))"

definition aes256_encrypt_block :: "byte list \<Rightarrow> byte list \<Rightarrow> byte list" where
  "aes256_encrypt_block key blk = cipher (round_keys key) blk"

definition aes256_decrypt_block :: "byte list \<Rightarrow> byte list \<Rightarrow> byte list" where
  "aes256_decrypt_block key blk = inv_cipher (round_keys key) blk"


section \<open>SHA-1, HMAC and PBKDF2, the primitives behind \<open>PKCS5_PBKDF2_HMAC_SHA1\<close>\<close>

definition rotl32 :: "nat \<Rightarrow> 32 word \<Rightarrow> 32 word" where
  "rotl32 n w = push_bit n w OR drop_bit (32 - n) w"

definition be64 :: "nat \<Rightarrow> byte list" where
  "be64 n = (let w = (word_of_nat n :: 64 word) in
     [ucast (drop_bit 56 w), ucast (drop_bit 48 w), ucast (drop_bit 40 w), ucast (drop_bit 32 w),
      ucast (drop_bit 24 w), ucast (drop_bit 16 w), ucast (drop_bit 8 w), ucast w])"

text \<open>Message padding: a one bit, zeros up to 56 modulo 64 bytes, the bit length on 8 bytes.\<close>

definition sha1_pad :: "byte list \<Rightarrow> byte list" where
  "sha1_pad m = m @ [0x80] @ replicate ((119 - length m mod 64) mod 64) 0 @ be64 (8 * length m)"

text \<open>\<open>blocks bl n d\<close> cuts the first \<open>n\<close> blocks of \<open>bl\<close> bytes off the buffer \<open>d\<close>.\<close>

fun blocks :: "nat \<Rightarrow> nat \<Rightarrow> byte list \<Rightarrow> byte list list" where
  "blocks bl 0 d = []"
| "blocks bl (Suc n) d = take bl d # blocks bl n (drop bl d)"

definition block_words :: "byte list \<Rightarrow> 32 word list" where
  "block_words b =
     map (\<lambda>i. word_of_bytes (b ! (4 * i)) (b ! (4 * i + 1)) (b ! (4 * i + 2)) (b ! (4 * i + 3)))
         [0..<16]"

definition sha1_f :: "nat \<Rightarrow> 32 word \<Rightarrow> 32 word \<Rightarrow> 32 word \<Rightarrow> 32 word" where
  "sha1_f t b c d =
     (if t < 20 then (b AND c) OR (NOT b AND d)
      else if t < 40 then b XOR c XOR d
      else if t < 60 then (b AND c) OR (b AND d) OR (c AND d)
      else b XOR c XOR d)"

definition sha1_k :: "nat \<Rightarrow> 32 word" where
  "sha1_k t =
     (if t < 20 then 0x5a827999
      else if t < 40 then 0x6ed9eba1
      else if t < 60 then 0x8f1bbcdc
      else 0xca62c1d6)"

type_synonym sha1_state = "32 word \<times> 32 word \<times> 32 word \<times> 32 word \<times> 32 word"

text \<open>
  One round. The message schedule is kept as a window of 16 words (the method of the
  standard that needs no array of 80 words): the head of the window is the word of
  round \<open>t\<close>, and the word of round \<open>t + 16\<close> is appended from the words of rounds
  \<open>t + 13\<close>, \<open>t + 8\<close>, \<open>t + 2\<close> and \<open>t\<close>.
\<close>

fun sha1_step :: "nat \<Rightarrow> 32 word list \<times> sha1_state \<Rightarrow> 32 word list \<times> sha1_state" where
  "sha1_step t (win, a, b, c, d, e) =
     (tl win @ [rotl32 1 (win ! 13 XOR win ! 8 XOR win ! 2 XOR win ! 0)],
      rotl32 5 a + sha1_f t b c d + e + sha1_k t + win ! 0, a, rotl32 30 b, c, d)"

fun sha1_compress :: "byte list \<Rightarrow> sha1_state \<Rightarrow> sha1_state" where
  "sha1_compress blk (h0, h1, h2, h3, h4) =
     (case snd (fold sha1_step [0..<80] (block_words blk, h0, h1, h2, h3, h4)) of
        (a, b, c, d, e) \<Rightarrow> (h0 + a, h1 + b, h2 + c, h3 + d, h4 + e))"

definition sha1_init :: sha1_state where
  "sha1_init = (0x67452301, 0xefcdab89, 0x98badcfe, 0x10325476, 0xc3d2e1f0)"

fun sha1_output :: "sha1_state \<Rightarrow> byte list" where
  "sha1_output (h0, h1, h2, h3, h4) =
     bytes_of_word h0 @ bytes_of_word h1 @ bytes_of_word h2 @ bytes_of_word h3 @ bytes_of_word h4"

definition sha1 :: "byte list \<Rightarrow> byte list" where
  "sha1 m = (let p = sha1_pad m in
     sha1_output (fold sha1_compress (blocks 64 (length p div 64) p) sha1_init))"

text \<open>
  HMAC (RFC 2104) over SHA-1: a key longer than the 64-byte block is replaced by its
  digest, then the key is filled with zeros to the block length.
\<close>

definition hmac_key_block :: "byte list \<Rightarrow> byte list" where
  "hmac_key_block key =
     (let k = (if 64 < length key then sha1 key else key) in k @ replicate (64 - length k) 0)"

definition hmac_sha1 :: "byte list \<Rightarrow> byte list \<Rightarrow> byte list" where
  "hmac_sha1 key msg =
     (let k = hmac_key_block key in
      sha1 (map (\<lambda>b. b XOR 0x5c) k @ sha1 (map (\<lambda>b. b XOR 0x36) k @ msg)))"

definition be32 :: "nat \<Rightarrow> byte list" where
  "be32 n = bytes_of_word (word_of_nat n)"

text \<open>
  PBKDF2 (RFC 8018): block \<open>i\<close> of the output is the exclusive or of \<open>iter\<close> chained
  HMAC values; the loop runs for \<open>j = 1, \<dots>, iter - 1\<close> after the first value.
\<close>

definition pbkdf2_iter :: "byte list \<Rightarrow> nat \<Rightarrow> byte list \<times> byte list \<Rightarrow> byte list \<times> byte list" where
  "pbkdf2_iter pass j ut = (let u = hmac_sha1 pass (fst ut) in (u, xor_bytes (snd ut) u))"

definition pbkdf2_block :: "byte list \<Rightarrow> byte list \<Rightarrow> nat \<Rightarrow> nat \<Rightarrow> byte list" where
  "pbkdf2_block pass salt iter i =
     (let u1 = hmac_sha1 pass (salt @ be32 i) in snd (fold (pbkdf2_iter pass) [1..<iter] (u1, u1)))"

definition pbkdf2_hmac_sha1 :: "byte list \<Rightarrow> byte list \<Rightarrow> nat \<Rightarrow> nat \<Rightarrow> byte list" where
  "pbkdf2_hmac_sha1 pass salt iter keylen =
     take keylen (concat (map (pbkdf2_block pass salt iter) [1..<Suc ((keylen + 19) div 20)]))"


section \<open>The cipher interface of the library: AES-256 in CBC mode with block padding\<close>

text \<open>
  The program drives the cipher through \<open>EVP_*Init_ex\<close>, \<open>EVP_*Update\<close> and
  \<open>EVP_*Final_ex\<close>. The context keeps the key, the chaining value, the bytes of an
  incomplete block, and, when decrypting, the last decrypted block, which is held back
  until the final call strips the padding from it.
\<close>

record evp_cipher_ctx =
  ctx_key :: "byte list"
  ctx_iv :: "byte list"
  ctx_buf :: "byte list"
  ctx_final :: "byte list"
  ctx_final_used :: bool

datatype lib_error =
    BAD_DECRYPT
  | WRONG_FINAL_BLOCK_LENGTH
  | INVALID_LENGTH
  | RAND_FAILED
  | PBKDF2_FAILED

fun cbc_encrypt_blocks :: "byte list \<Rightarrow> byte list \<Rightarrow> byte list list \<Rightarrow> byte list \<times> byte list" where
  "cbc_encrypt_blocks key iv [] = ([], iv)"
| "cbc_encrypt_blocks key iv (b # bs) =
     (let c = aes256_encrypt_block key (xor_bytes b iv);
          r = cbc_encrypt_blocks key c bs
      in (c @ fst r, snd r))"

fun cbc_decrypt_blocks :: "byte list \<Rightarrow> byte list \<Rightarrow> byte list list \<Rightarrow> byte list \<times> byte list" where
  "cbc_decrypt_blocks key iv [] = ([], iv)"
| "cbc_decrypt_blocks key iv (c # cs) =
     (let b = xor_bytes (aes256_decrypt_block key c) iv;
          r = cbc_decrypt_blocks key c cs
      in (b @ fst r, snd r))"

text \<open>
  The common part of both update calls: the new bytes follow the buffered ones, every
  complete block is transformed, the rest stays in the buffer.
\<close>

definition evp_update :: "bool \<Rightarrow> evp_cipher_ctx \<Rightarrow> byte list \<Rightarrow> evp_cipher_ctx \<times> byte list" where
  "evp_update enc ctx inp =
     (let d = ctx_buf ctx @ inp;
          n = length d div 16;
          r = (if enc then cbc_encrypt_blocks (ctx_key ctx) (ctx_iv ctx) (blocks 16 n d)
               else cbc_decrypt_blocks (ctx_key ctx) (ctx_iv ctx) (blocks 16 n d))
      in (ctx\<lparr>ctx_iv := snd r, ctx_buf := drop (16 * n) d\<rparr>, fst r))"

text \<open>
  The length argument \<open>inl\<close> of the update calls is a C \<open>int\<close>: a negative length is
  refused, a zero length produces nothing, otherwise exactly \<open>inl\<close> bytes are read.
\<close>

definition EVP_EncryptUpdate ::
  "evp_cipher_ctx \<Rightarrow> byte list \<Rightarrow> int \<Rightarrow> lib_error + evp_cipher_ctx \<times> byte list" where
  "EVP_EncryptUpdate ctx inp inl =
     (if inl < 0 then Inl INVALID_LENGTH
      else if inl = 0 then Inr (ctx, [])
      else Inr (evp_update True ctx (take (nat inl) inp)))"

definition EVP_EncryptFinal_ex :: "evp_cipher_ctx \<Rightarrow> lib_error + byte list" where
  "EVP_EncryptFinal_ex ctx =
     (let n = 16 - length (ctx_buf ctx);
          blk = ctx_buf ctx @ replicate n (word_of_nat n)
      in Inr (fst (cbc_encrypt_blocks (ctx_key ctx) (ctx_iv ctx) [blk])))"

definition EVP_DecryptUpdate ::
  "evp_cipher_ctx \<Rightarrow> byte list \<Rightarrow> int \<Rightarrow> lib_error + evp_cipher_ctx \<times> byte list" where
  "EVP_DecryptUpdate ctx inp inl =
     (if inl < 0 then Inl INVALID_LENGTH
      else if inl = 0 then Inr (ctx, [])
      else
        let pre = (if ctx_final_used ctx then ctx_final ctx else []);
            r = evp_update False ctx (take (nat inl) inp);
            ctx' = fst r;
            out = snd r
        in if ctx_buf ctx' = []
           then Inr (ctx'\<lparr>ctx_final := drop (length out - 16) out, ctx_final_used := True\<rparr>,
                     pre @ take (length out - 16) out)
           else Inr (ctx'\<lparr>ctx_final_used := False\<rparr>, pre @ out))"

definition EVP_DecryptFinal_ex :: "evp_cipher_ctx \<Rightarrow> lib_error + byte list" where
  "EVP_DecryptFinal_ex ctx =
     (if ctx_buf ctx \<noteq> [] \<or> \<not> ctx_final_used ctx then Inl WRONG_FINAL_BLOCK_LENGTH
      else
        let n = unat (ctx_final ctx ! 15)
        in if n = 0 \<or> 16 < n then Inl BAD_DECRYPT
           else if list_ex (\<lambda>i. ctx_final ctx ! (15 - i) \<noteq> ctx_final ctx ! 15) [0..<n]
           then Inl BAD_DECRYPT
           else Inr (take (16 - n) (ctx_final ctx)))"

text \<open>
  \<open>PKCS5_PBKDF2_HMAC_SHA1(pass, passlen, salt, saltlen, iter, keylen, out)\<close>: a
  \<open>passlen\<close> of \<open>-1\<close> asks for the length of the C string, any other negative length
  is refused.
\<close>

definition PKCS5_PBKDF2_HMAC_SHA1 ::
  "byte list \<Rightarrow> int \<Rightarrow> byte list \<Rightarrow> nat \<Rightarrow> nat \<Rightarrow> nat \<Rightarrow> lib_error + byte list" where
  "PKCS5_PBKDF2_HMAC_SHA1 pass passlen salt saltlen iter keylen =
     (if passlen = - 1
      then Inr (pbkdf2_hmac_sha1 (takeWhile (\<lambda>b. b \<noteq> 0) pass) (take saltlen salt) iter keylen)
      else if passlen < 0 then Inl PBKDF2_FAILED
      else Inr (pbkdf2_hmac_sha1 (take (nat passlen) pass) (take saltlen salt) iter keylen))"

section \<open>The program\<close>

definition AES_KEY_LENGTH :: nat where "AES_KEY_LENGTH = 32"
definition AES_BLOCK_SIZE :: nat where "AES_BLOCK_SIZE = 16"
definition INT_MAX :: int where "INT_MAX = 2147483647"

text \<open>
  The ways a run ends other than by returning: \<open>handleErrors\<close> (the library's errors are
  printed, then \<open>abort()\<close>), \<open>exit(1)\<close> after \<open>Cannot open file\<close>, and the points where
  C++ leaves the behaviour undefined: a read or write past the end of a buffer, an
  overflowing \<open>int\<close> addition.
\<close>

datatype failure =
    Abort lib_error
  | CannotOpen string
  | OutOfRange
  | IntOverflow

definition handleErrors :: "lib_error \<Rightarrow> failure + 'a" where
  "handleErrors e = Inl (Abort e)"

text \<open>
  A \<open>size_t\<close> passed where the library takes an \<open>int\<close>: the value is reduced modulo
  \<open>2^32\<close> and read as two's complement.
\<close>

definition int_of_size :: "nat \<Rightarrow> int" where
  "int_of_size n = sint (word_of_nat n :: 32 word)"

text \<open>Writing \<open>d\<close> into the buffer \<open>buf\<close> from offset \<open>off\<close> on.\<close>

definition write_at :: "byte list \<Rightarrow> nat \<Rightarrow> byte list \<Rightarrow> failure + byte list" where
  "write_at buf off d =
     (if off + length d \<le> length buf
      then Inr (take off buf @ d @ drop (off + length d) buf)
      else Inl OutOfRange)"

definition resize :: "byte list \<Rightarrow> nat \<Rightarrow> byte list" where
  "resize v n = take n v @ replicate (n - length v) 0"

definition generateKeyFromPassword :: "string \<Rightarrow> failure + byte list" where
  "generateKeyFromPassword password =
     (let salt = map of_char ''12345678'' in
      case PKCS5_PBKDF2_HMAC_SHA1 (map of_char password) (int_of_size (length password))
             salt 8 10000 AES_KEY_LENGTH of
        Inl e \<Rightarrow> handleErrors e
      | Inr key \<Rightarrow> Inr key)"

text \<open>
  The file system as the program sees it: the content of every readable file, and
  whether a file can be opened for writing. \<open>rand_ret\<close> and \<open>rand_out\<close> are the return
  value of \<open>RAND_bytes\<close> and the bytes found in the IV array after the call;
  \<open>posixly_correct\<close> makes \<open>getopt\<close> stop at the first argument that is not an option;
  \<open>past_end\<close> gives the bytes that a read past the end of the input buffer finds.
\<close>

record world =
  files :: "string \<Rightarrow> byte list option"
  can_write :: "string \<Rightarrow> bool"
  rand_ret :: int
  rand_out :: "nat \<Rightarrow> byte"
  posixly_correct :: bool
  past_end :: "nat \<Rightarrow> byte"

definition readFile :: "world \<Rightarrow> string \<Rightarrow> failure + byte list" where
  "readFile w filename =
     (case files w filename of None \<Rightarrow> Inl (CannotOpen filename) | Some d \<Rightarrow> Inr d)"

definition writeFile :: "world \<Rightarrow> string \<Rightarrow> byte list \<Rightarrow> failure + world" where
  "writeFile w filename d =
     (if can_write w filename then Inr (w\<lparr>files := (files w)(filename \<mapsto> d)\<rparr>)
      else Inl (CannotOpen filename))"

definition EVP_CipherInit_ex :: "byte list \<Rightarrow> byte list \<Rightarrow> failure + evp_cipher_ctx" where
  "EVP_CipherInit_ex key iv =
     (if length key < AES_KEY_LENGTH \<or> length iv < AES_BLOCK_SIZE then Inl OutOfRange
      else Inr \<lparr>ctx_key = take AES_KEY_LENGTH key, ctx_iv = take AES_BLOCK_SIZE iv,
                ctx_buf = [], ctx_final = [], ctx_final_used = False\<rparr>)"

text \<open>
  The container: a result vector of \<open>AES_BLOCK_SIZE + ciphertext.size()\<close> bytes, the IV
  copied to its start and the ciphertext behind it (the end of \<open>encryptDataWithIV\<close>);
  the IV copied from the first \<open>AES_BLOCK_SIZE\<close> bytes and the cipher input taken from
  \<open>ciphertext.data() + AES_BLOCK_SIZE\<close> (the start of \<open>decryptDataWithIV\<close>, which has
  no check of the length).
\<close>

definition container_pack :: "byte list \<Rightarrow> byte list \<Rightarrow> failure + byte list" where
  "container_pack iv ciphertext =
     (let result = replicate (AES_BLOCK_SIZE + length ciphertext) 0 in
      case write_at result 0 (take AES_BLOCK_SIZE iv) of
        Inl e \<Rightarrow> Inl e
      | Inr result \<Rightarrow> write_at result AES_BLOCK_SIZE ciphertext)"

definition container_unpack :: "byte list \<Rightarrow> failure + byte list \<times> byte list" where
  "container_unpack ciphertext =
     (if length ciphertext < AES_BLOCK_SIZE then Inl OutOfRange
      else Inr (take AES_BLOCK_SIZE ciphertext, drop AES_BLOCK_SIZE ciphertext))"

definition encryptDataWithIV :: "byte list \<Rightarrow> byte list \<Rightarrow> byte list \<Rightarrow> failure + byte list" where
  "encryptDataWithIV plaintext key iv =
     (case EVP_CipherInit_ex key iv of
        Inl e \<Rightarrow> Inl e
      | Inr ctx \<Rightarrow>
     (let ciphertext = replicate (length plaintext + AES_BLOCK_SIZE) 0 in
      case EVP_EncryptUpdate ctx plaintext (int_of_size (length plaintext)) of
        Inl e \<Rightarrow> handleErrors e
      | Inr (ctx, out) \<Rightarrow>
     (case write_at ciphertext 0 out of
        Inl e \<Rightarrow> Inl e
      | Inr ciphertext \<Rightarrow>
     (let len = int (length out);
          ciphertext_len = len in
      case EVP_EncryptFinal_ex ctx of
        Inl e \<Rightarrow> handleErrors e
      | Inr out \<Rightarrow>
     (case write_at ciphertext (nat len) out of
        Inl e \<Rightarrow> Inl e
      | Inr ciphertext \<Rightarrow>
     (let len = int (length out) in
      if INT_MAX < ciphertext_len + len then Inl IntOverflow
      else
        let ciphertext_len = ciphertext_len + len;
            ciphertext = resize ciphertext (nat ciphertext_len)
        in container_pack iv ciphertext))))))"

definition decryptDataWithIV :: "byte list \<Rightarrow> byte list \<Rightarrow> failure + byte list" where
  "decryptDataWithIV ciphertext key =
     (case container_unpack ciphertext of
        Inl e \<Rightarrow> Inl e
      | Inr (iv, body) \<Rightarrow>
     (case EVP_CipherInit_ex key iv of
        Inl e \<Rightarrow> Inl e
      | Inr ctx \<Rightarrow>
     (let plaintext = replicate (length ciphertext - AES_BLOCK_SIZE) 0 in
      case EVP_DecryptUpdate ctx body (int_of_size (length ciphertext - AES_BLOCK_SIZE)) of
        Inl e \<Rightarrow> handleErrors e
      | Inr (ctx, out) \<Rightarrow>
     (case write_at plaintext 0 out of
        Inl e \<Rightarrow> Inl e
      | Inr plaintext \<Rightarrow>
     (let len = int (length out);
          plaintext_len = len in
      case EVP_DecryptFinal_ex ctx of
        Inl e \<Rightarrow> handleErrors e
      | Inr out \<Rightarrow>
     (case write_at plaintext (nat len) out of
        Inl e \<Rightarrow> Inl e
      | Inr plaintext \<Rightarrow>
     (let len = int (length out) in
      if INT_MAX < plaintext_len + len then Inl IntOverflow
      else
        let plaintext_len = plaintext_len + len
        in Inr (resize plaintext (nat plaintext_len)))))))))"

subsection \<open>Output text\<close>

definition hex_digit :: "nat \<Rightarrow> char" where
  "hex_digit n = ''0123456789abcdef'' ! n"

text \<open>\<open>std::hex << (int)b\<close>: lower case, no leading zero.\<close>

definition hex_of_byte :: "byte \<Rightarrow> string" where
  "hex_of_byte b =
     (if unat b < 16 then [hex_digit (unat b)]
      else [hex_digit (unat b div 16), hex_digit (unat b mod 16)])"

definition iv_line :: "string \<Rightarrow> byte list \<Rightarrow> string" where
  "iv_line label iv = label @ concat (map (\<lambda>b. hex_of_byte b @ '' '') iv) @ [CHR 0x0A]"

definition printUsage :: "string \<Rightarrow> string" where
  "printUsage program =
     ''Usage: '' @ program @ '' [-e | -d] -i <inputfile> -o <outputfile> -p <password>'' @ [CHR 0x0A]"

text \<open>
  What \<open>decryptDataWithIV\<close> prints before it initialises the cipher: the 16 bytes found
  from the start of its input on. \<open>memory_at\<close> is the memory from the start of a buffer
  on, as far as the copy of the IV reads it: the buffer, and behind a buffer of fewer
  than 16 bytes what lies past its end.
\<close>

definition decrypt_stdout :: "byte list \<Rightarrow> string" where
  "decrypt_stdout ciphertext = iv_line ''Extracted IV: '' (take AES_BLOCK_SIZE ciphertext)"

definition memory_at :: "world \<Rightarrow> byte list \<Rightarrow> byte list" where
  "memory_at w buf = buf @ map (past_end w) [0..<AES_BLOCK_SIZE - length buf]"

subsection \<open>Command line\<close>

text \<open>
  What reaches the error stream: the program's own line, the library's report of the
  error it has queued (\<open>ERR_print_errors_fp\<close> in \<open>handleErrors\<close>), and the message
  \<open>getopt\<close> writes itself, \<open>opterr\<close> being left at 1, about a letter that is not an
  option or an option without its argument. The wording of the last three is the
  library's; the model keeps what they report.
\<close>

datatype diagnostic =
    Text string
  | Error_queue lib_error
  | Invalid_option char
  | Missing_argument char

text \<open>
  The values \<open>getopt(argc, argv, "edi:o:p:")\<close> returns in turn, each with \<open>optarg\<close> and
  with what the call wrote to the error stream: \<open>scan\<close> looks at the next element of
  \<open>argv\<close>, \<open>cluster\<close> at the next letter of an element that starts with a dash.
  \<open>CHR ''?''\<close> stands for a letter that is not in the option string and for an option
  whose argument is missing. With \<open>perm\<close> the elements that are not options are
  skipped, otherwise the first of them ends the scan.
\<close>

fun getopt_scan :: "bool \<Rightarrow> string list \<Rightarrow> (char \<times> string \<times> diagnostic list) list"
  and getopt_cluster ::
    "bool \<Rightarrow> string \<Rightarrow> string list \<Rightarrow> (char \<times> string \<times> diagnostic list) list" where
  "getopt_scan perm [] = []"
| "getopt_scan perm ([] # rest) = (if perm then getopt_scan perm rest else [])"
| "getopt_scan perm ([c] # rest) = (if perm then getopt_scan perm rest else [])"
| "getopt_scan perm ((c # c' # cs) # rest) =
     (if c = CHR ''-'' then
        (if c' = CHR ''-'' \<and> cs = [] then [] else getopt_cluster perm (c' # cs) rest)
      else if perm then getopt_scan perm rest else [])"
| "getopt_cluster perm [] rest = getopt_scan perm rest"
| "getopt_cluster perm (c # cs) rest =
     (if c = CHR ''e'' \<or> c = CHR ''d'' then (c, [], []) # getopt_cluster perm cs rest
      else if c = CHR ''i'' \<or> c = CHR ''o'' \<or> c = CHR ''p'' then
        (if cs \<noteq> [] then (c, cs, []) # getopt_scan perm rest
         else (case rest of
                 [] \<Rightarrow> [(CHR ''?'', [], [Missing_argument c])]
               | a # rest' \<Rightarrow> (c, a, []) # getopt_scan perm rest'))
      else (CHR ''?'', [], [Invalid_option c]) # getopt_cluster perm cs rest)"

record options =
  inputFile :: string
  outputFile :: string
  password :: string
  encrypt :: bool
  decrypt :: bool

text \<open>
  The \<open>while\<close> loop of \<open>main\<close> with its \<open>switch\<close>; \<open>Inl\<close> is the \<open>default\<close> branch,
  with what \<open>getopt\<close> wrote to the error stream in the call that led there (the calls
  that return an option write nothing).
\<close>

fun parse_options ::
  "(char \<times> string \<times> diagnostic list) list \<Rightarrow> options \<Rightarrow> diagnostic list + options" where
  "parse_options [] f = Inr f"
| "parse_options ((opt, optarg, msgs) # rs) f =
     (if opt = CHR ''e'' then parse_options rs (f\<lparr>encrypt := True\<rparr>)
      else if opt = CHR ''d'' then parse_options rs (f\<lparr>decrypt := True\<rparr>)
      else if opt = CHR ''i'' then parse_options rs (f\<lparr>inputFile := optarg\<rparr>)
      else if opt = CHR ''o'' then parse_options rs (f\<lparr>outputFile := optarg\<rparr>)
      else if opt = CHR ''p'' then parse_options rs (f\<lparr>password := optarg\<rparr>)
      else Inl msgs)"

subsection \<open>The entry point\<close>

text \<open>
  How a process ends: \<open>exit\<close> or \<open>return\<close> with a status, \<open>abort()\<close> (the signal
  \<open>SIGABRT\<close>), or undefined behaviour.
\<close>

datatype status = Exited int | Aborted | Undefined

record outcome =
  out_stdout :: string
  out_stderr :: "diagnostic list"
  out_status :: status
  out_files :: "string \<Rightarrow> byte list option"

text \<open>How a run that does not reach the end of \<open>main\<close> ends; nothing is written there.\<close>

fun stop :: "world \<Rightarrow> string \<Rightarrow> failure \<Rightarrow> outcome" where
  "stop w out (Abort e) =
     \<lparr>out_stdout = out, out_stderr = [Error_queue e], out_status = Aborted,
      out_files = files w\<rparr>"
| "stop w out (CannotOpen filename) =
     \<lparr>out_stdout = out, out_stderr = [Text (''Cannot open file: '' @ filename @ [CHR 0x0A])],
      out_status = Exited 1, out_files = files w\<rparr>"
| "stop w out OutOfRange =
     \<lparr>out_stdout = out, out_stderr = [], out_status = Undefined, out_files = files w\<rparr>"
| "stop w out IntOverflow =
     \<lparr>out_stdout = out, out_stderr = [], out_status = Undefined, out_files = files w\<rparr>"

text \<open>\<open>printUsage(argv[0]); return 1;\<close> after \<open>getopt\<close> wrote \<open>msgs\<close>.\<close>

definition usage_exit :: "world \<Rightarrow> string \<Rightarrow> diagnostic list \<Rightarrow> outcome" where
  "usage_exit w program msgs =
     \<lparr>out_stdout = printUsage program, out_stderr = msgs, out_status = Exited 1,
      out_files = files w\<rparr>"

definition finish :: "world \<Rightarrow> string \<Rightarrow> options \<Rightarrow> byte list \<Rightarrow> outcome" where
  "finish w out f resultData =
     (case writeFile w (outputFile f) resultData of
        Inl e \<Rightarrow> stop w out e
      | Inr w' \<Rightarrow>
          \<lparr>out_stdout = out @ ''Operation '' @ (if encrypt f then ''encryption'' else ''decryption'')
                         @ '' completed successfully!'' @ [CHR 0x0A],
           out_stderr = [], out_status = Exited 0, out_files = files w'\<rparr>)"

definition main :: "string \<Rightarrow> string list \<Rightarrow> world \<Rightarrow> outcome" where
  "main program args w =
     (case parse_options (getopt_scan (\<not> posixly_correct w) args)
             \<lparr>inputFile = [], outputFile = [], password = [], encrypt = False, decrypt = False\<rparr> of
        Inl msgs \<Rightarrow> usage_exit w program msgs
      | Inr f \<Rightarrow>
     (if (encrypt f \<and> decrypt f) \<or> (\<not> encrypt f \<and> \<not> decrypt f) \<or> inputFile f = []
         \<or> outputFile f = [] \<or> password f = []
      then usage_exit w program []
      else
     (case generateKeyFromPassword (password f) of
        Inl e \<Rightarrow> stop w [] e
      | Inr key \<Rightarrow>
     (case readFile w (inputFile f) of
        Inl e \<Rightarrow> stop w [] e
      | Inr fileData \<Rightarrow>
     (if encrypt f then
        (if rand_ret w = 0 then stop w [] (Abort RAND_FAILED)
         else
           let iv = map (rand_out w) [0..<AES_BLOCK_SIZE];
               out = iv_line ''Generated IV: '' iv
           in case encryptDataWithIV fileData key iv of
                Inl e \<Rightarrow> stop w out e
              | Inr resultData \<Rightarrow> finish w out f resultData)
      else
        (case decryptDataWithIV fileData key of
           Inl e \<Rightarrow> stop w (decrypt_stdout (memory_at w fileData)) e
         | Inr resultData \<Rightarrow>
             finish w (decrypt_stdout (memory_at w fileData)) f resultData))))))"


section \<open>Notions used to state the properties\<close>

text \<open>
  Block padding as the standard describes it (PKCS #7 for 16-byte blocks): \<open>n\<close> bytes
  of value \<open>n\<close> are appended, \<open>1 \<le> n \<le> 16\<close>, so that the length becomes a multiple
  of 16; a block is well padded when it ends in such a run.
\<close>

definition pkcs7_pad :: "byte list \<Rightarrow> byte list" where
  "pkcs7_pad p = (let n = 16 - length p mod 16 in p @ replicate n (word_of_nat n))"

definition well_padded :: "byte list \<Rightarrow> bool" where
  "well_padded blk =
     list_ex (\<lambda>n. drop (length blk - n) blk = replicate n (word_of_nat n)) [1..<17]"

text \<open>CBC over a buffer: all its complete blocks, chained from the IV.\<close>

definition cbc_encrypt :: "byte list \<Rightarrow> byte list \<Rightarrow> byte list \<Rightarrow> byte list" where
  "cbc_encrypt key iv d = fst (cbc_encrypt_blocks key iv (blocks 16 (length d div 16) d))"

definition cbc_decrypt :: "byte list \<Rightarrow> byte list \<Rightarrow> byte list \<Rightarrow> byte list" where
  "cbc_decrypt key iv d = fst (cbc_decrypt_blocks key iv (blocks 16 (length d div 16) d))"

text \<open>The length the specification gives for the ciphertext of \<open>n\<close> plaintext bytes.\<close>

definition padded_length :: "nat \<Rightarrow> nat" where
  "padded_length n = (n div 16 + 1) * 16"


text \<open>
  The command line as a user reads it: whether a flag occurs among the options
  \<open>getopt\<close> found, and the value an option has, the last one given counting and the
  empty string standing for an option that is not given.
\<close>

definition flag_given :: "char \<Rightarrow> (char \<times> string \<times> diagnostic list) list \<Rightarrow> bool" where
  "flag_given c opts = list_ex (\<lambda>r. fst r = c) opts"

definition option_value :: "char \<Rightarrow> (char \<times> string \<times> diagnostic list) list \<Rightarrow> string" where
  "option_value c opts =
     (case filter (\<lambda>r. fst r = c) opts of [] \<Rightarrow> [] | r # rs \<Rightarrow> fst (snd (last (r # rs))))"

definition usage_error :: "(char \<times> string \<times> diagnostic list) list \<Rightarrow> bool" where
  "usage_error opts \<longleftrightarrow>
     flag_given (CHR ''?'') opts
     \<or> (flag_given (CHR ''e'') opts \<and> flag_given (CHR ''d'') opts)
     \<or> (\<not> flag_given (CHR ''e'') opts \<and> \<not> flag_given (CHR ''d'') opts)
     \<or> option_value (CHR ''i'') opts = []
     \<or> option_value (CHR ''o'') opts = []
     \<or> option_value (CHR ''p'') opts = []"

section \<open>AES: the inverse cipher undoes the cipher\<close>

subsection \<open>The substitution table\<close>

lemma byte_enum: "(x :: byte) \<in> set (map word_of_nat [0..<256])"
proof -
  have lt: "unat x < 256" using unsigned_less [of x, where 'a = nat] by simp
  have "x = word_of_nat (unat x)" by simp
  then have "x \<in> word_of_nat ` {0..<256}" using lt by (intro image_eqI [where x = "unat x"]) auto
  then show ?thesis by simp
qed

lemma all_bytes: "list_all P (map word_of_nat [0..<256]) \<Longrightarrow> P (x :: byte)"
  using byte_enum [of x] by (simp only: list_all_iff)

lemma inv_sbox_sbox: "inv_sbox (sbox x) = x"
  apply (rule all_bytes [where P = "\<lambda>x. inv_sbox (sbox x) = x"])
  apply (simp add: upt_conv_Cons)
  apply (simp add: sbox_def inv_sbox_def sbox_table_def inv_sbox_table_def)
  done

subsection \<open>The layers of a round\<close>

lemma list16:
  assumes "length s = 16"
  obtains a0 a1 a2 a3 a4 a5 a6 a7 a8 a9 a10 a11 a12 a13 a14 a15
  where "s = [a0, a1, a2, a3, a4, a5, a6, a7, a8, a9, a10, a11, a12, a13, a14, a15 :: 'a]"
proof -
  have "s = map (\<lambda>i. s ! i) [0..<16]" using map_nth [of s] assms by simp
  also have "[0..<16] = [0, 1, 2, 3, 4, 5, 6, 7, 8, 9, 10, 11, 12, 13, 14, 15 :: nat]"
    by (simp add: upt_conv_Cons)
  finally show thesis using that by simp
qed

lemma length_sub_bytes [simp]: "length (sub_bytes s) = length s"
  by (simp add: sub_bytes_def)

lemma length_inv_sub_bytes [simp]: "length (inv_sub_bytes s) = length s"
  by (simp add: inv_sub_bytes_def)

lemma length_shift_rows [simp]: "length (shift_rows s) = 16"
  by (simp add: shift_rows_def)

lemma length_inv_shift_rows [simp]: "length (inv_shift_rows s) = 16"
  by (simp add: inv_shift_rows_def)

lemma length_mix_columns [simp]: "length (mix_columns s) = 16"
  by (simp add: mix_columns_def mix_column_def)

lemma length_inv_mix_columns [simp]: "length (inv_mix_columns s) = 16"
  by (simp add: inv_mix_columns_def inv_mix_column_def)

lemma length_xor_bytes [simp]: "length (xor_bytes a b) = min (length a) (length b)"
  by (simp add: xor_bytes_def)

lemma xor_bytes_cancel: "length a \<le> length b \<Longrightarrow> xor_bytes (xor_bytes a b) b = a"
proof (induction a arbitrary: b)
  case Nil
  then show ?case by (simp add: xor_bytes_def)
next
  case (Cons x xs)
  then obtain y ys where "b = y # ys" by (cases b) auto
  with Cons show ?case by (simp add: xor_bytes_def xor.assoc)
qed

lemma inv_sub_bytes_sub_bytes [simp]: "inv_sub_bytes (sub_bytes s) = s"
  by (simp add: inv_sub_bytes_def sub_bytes_def inv_sbox_sbox map_idI)

lemma inv_shift_rows_shift_rows: "length s = 16 \<Longrightarrow> inv_shift_rows (shift_rows s) = s"
  by (erule list16) (simp add: inv_shift_rows_def shift_rows_def)

lemma xtime_xor: "xtime (a XOR b) = xtime a XOR xtime b"
  by (simp add: xtime_def bit_xor_iff ac_simps)

lemma xor_cancel_left: "(a :: byte) XOR (a XOR b) = b"
  by (simp add: xor.assoc [symmetric])

lemma inv_mix_column_mix_column:
  "mix_column a0 a1 a2 a3 = [b0, b1, b2, b3] \<Longrightarrow> inv_mix_column b0 b1 b2 b3 = [a0, a1, a2, a3]"
  by (auto simp add: mix_column_def inv_mix_column_def gmul2_def gmul3_def gmul9_def gmul11_def
       gmul13_def gmul14_def xtime_xor xor_cancel_left ac_simps)

subsection \<open>Rounds, key schedule and the block functions\<close>

lemma inv_mix_columns_mix_columns:
  assumes "length s = 16"
  shows "inv_mix_columns (mix_columns s) = s"
proof -
  have col: "inv_mix_column (mix_column a b c d ! 0) (mix_column a b c d ! Suc 0)
               (mix_column a b c d ! 2) (mix_column a b c d ! 3) = [a, b, c, d]" for a b c d
    by (rule inv_mix_column_mix_column) (simp add: mix_column_def)
  have len: "length (mix_column a b c d) = 4" for a b c d
    by (simp add: mix_column_def)
  from assms show ?thesis
    by (elim list16) (simp add: inv_mix_columns_def mix_columns_def nth_append len col)
qed

lemma add_round_key_cancel:
  "length s \<le> length rk \<Longrightarrow> add_round_key rk (add_round_key rk s) = s"
  by (simp add: add_round_key_def xor_bytes_cancel)

lemma length_add_round_key [simp]:
  "length (add_round_key rk s) = min (length s) (length rk)"
  by (simp add: add_round_key_def)

lemma dec_rounds_append:
  "dec_rounds (ks @ ks') s = dec_rounds ks' (dec_rounds ks s)"
  by (induction ks arbitrary: s) simp_all

lemma length_enc_rounds:
  "length s = 16 \<Longrightarrow> \<forall>k \<in> set ks. length k = 16 \<Longrightarrow> length (enc_rounds ks s) = 16"
  by (induction ks arbitrary: s) simp_all

lemma dec_rounds_enc_rounds:
  "length s = 16 \<Longrightarrow> \<forall>k \<in> set ks. length k = 16 \<Longrightarrow>
   dec_rounds (rev ks) (shift_rows (sub_bytes (enc_rounds ks s))) = shift_rows (sub_bytes s)"
proof (induction ks arbitrary: s)
  case Nil
  then show ?case by simp
next
  case (Cons k ks)
  let ?t = "add_round_key k (mix_columns (shift_rows (sub_bytes s)))"
  have lt: "length ?t = 16" using Cons.prems by simp
  have "dec_rounds (rev (k # ks)) (shift_rows (sub_bytes (enc_rounds (k # ks) s)))
      = dec_rounds [k] (dec_rounds (rev ks) (shift_rows (sub_bytes (enc_rounds ks ?t))))"
    by (simp add: dec_rounds_append)
  also have "\<dots> = dec_rounds [k] (shift_rows (sub_bytes ?t))"
    using Cons.IH [OF lt] Cons.prems by simp
  also have "\<dots> = inv_mix_columns (add_round_key k ?t)"
    using lt by (simp add: inv_shift_rows_shift_rows)
  also have "\<dots> = shift_rows (sub_bytes s)"
    using Cons.prems by (simp add: add_round_key_cancel inv_mix_columns_mix_columns)
  finally show ?case .
qed

lemma inv_cipher_cipher:
  assumes "length s = 16" and "\<forall>k \<in> set rks. length k = 16" and "2 \<le> length rks"
  shows "inv_cipher rks (cipher rks s) = s"
proof -
  from assms(3) obtain k0 rest where rks: "rks = k0 # rest"
    by (cases rks) auto
  with assms(3) have "rest \<noteq> []" by auto
  with rks have lastk: "last rks = last rest" by simp
  have lk0: "length k0 = 16" and llast: "length (last rest) = 16"
    using assms(2) rks \<open>rest \<noteq> []\<close> by auto
  have mid: "\<forall>k \<in> set (butlast rest). length k = 16"
    using assms(2) rks by (auto dest: in_set_butlastD)
  let ?s0 = "add_round_key k0 s"
  have l0: "length ?s0 = 16" using assms(1) lk0 by simp
  let ?s1 = "enc_rounds (butlast rest) ?s0"
  have "inv_cipher rks (cipher rks s)
      = add_round_key k0 (inv_sub_bytes (inv_shift_rows
          (dec_rounds (rev (butlast rest)) (shift_rows (sub_bytes ?s1)))))"
    using llast by (simp add: inv_cipher_def cipher_def rks lastk \<open>rest \<noteq> []\<close> add_round_key_cancel Let_def)
  also have "\<dots> = add_round_key k0 (inv_sub_bytes (inv_shift_rows (shift_rows (sub_bytes ?s0))))"
    using dec_rounds_enc_rounds [OF l0 mid] by simp
  also have "\<dots> = s"
    using assms(1) lk0 l0 by (simp add: inv_shift_rows_shift_rows add_round_key_cancel)
  finally show ?thesis .
qed

lemma length_cipher:
  "length rks \<ge> 1 \<Longrightarrow> length (last rks) = 16 \<Longrightarrow> length (cipher rks s) = 16"
  by (simp add: cipher_def Let_def)

lemma length_expand_fold: "length (fold expand_step is w) = length w + length is"
  by (induction "is" arbitrary: w) (simp_all add: expand_step_def Let_def)

lemma length_key_expansion: "length (key_expansion key) = 60"
  unfolding key_expansion_def length_expand_fold key_words_def by simp

lemma length_round_key:
  "4 * r + 4 \<le> length w \<Longrightarrow> length (round_key w r) = 16"
proof -
  assume a: "4 * r + 4 \<le> length w"
  have "length (concat (map bytes_of_word ws)) = 4 * length ws" for ws
    by (induction ws) (simp_all add: bytes_of_word_def)
  then show ?thesis using a by (simp add: round_key_def)
qed

lemma round_keys_props:
  "length (round_keys key) = 15" "\<forall>k \<in> set (round_keys key). length k = 16"
  by (auto simp add: round_keys_def Let_def length_round_key length_key_expansion)

lemma aes256_decrypt_encrypt:
  "length b = 16 \<Longrightarrow> aes256_decrypt_block key (aes256_encrypt_block key b) = b"
  by (simp add: aes256_decrypt_block_def aes256_encrypt_block_def inv_cipher_cipher round_keys_props)

lemma length_aes256_encrypt_block [simp]: "length (aes256_encrypt_block key b) = 16"
proof -
  have "round_keys key \<noteq> []" using round_keys_props(1) [of key] by auto
  then have "last (round_keys key) \<in> set (round_keys key)" by simp
  then show ?thesis
    by (simp add: aes256_encrypt_block_def length_cipher round_keys_props)
qed

section \<open>Blocks and CBC chaining\<close>

lemma length_blocks [simp]: "length (blocks bl n d) = n"
  by (induction n arbitrary: d) simp_all

lemma blocks_all_length:
  "bl * n \<le> length d \<Longrightarrow> b \<in> set (blocks bl n d) \<Longrightarrow> length b = bl"
proof (induction n arbitrary: d)
  case 0
  then show ?case by simp
next
  case (Suc n)
  from Suc.prems(1) have le: "bl + bl * n \<le> length d" by simp
  from Suc.prems(2) consider "b = take bl d" | "b \<in> set (blocks bl n (drop bl d))" by auto
  then show ?case
  proof cases
    case 1
    with le show ?thesis by simp
  next
    case 2
    moreover from le have "bl * n \<le> length (drop bl d)" by simp
    ultimately show ?thesis by (rule Suc.IH [rotated])
  qed
qed

lemma concat_blocks: "concat (blocks bl n d) = take (bl * n) d"
proof (induction n arbitrary: d)
  case 0
  then show ?case by simp
next
  case (Suc n)
  have "take bl d @ take (bl * n) (drop bl d) = take (bl + bl * n) d"
    by (simp add: take_add)
  with Suc show ?case by simp
qed

lemma blocks_add:
  "blocks bl (n + m) d = blocks bl n d @ blocks bl m (drop (bl * n) d)"
  by (induction n arbitrary: d) (simp_all add: add.commute)

lemma blocks_append_left:
  "bl * n \<le> length d \<Longrightarrow> blocks bl n (d @ e) = blocks bl n d"
proof (induction n arbitrary: d)
  case 0
  then show ?case by simp
next
  case (Suc n)
  from Suc.prems have "bl + bl * n \<le> length d" by simp
  then have "bl \<le> length d" and "bl * n \<le> length (drop bl d)" by simp_all
  with Suc.IH [of "drop bl d"] show ?case by simp
qed

lemma blocks_Cons:
  "length c = bl \<Longrightarrow> blocks bl (Suc n) (c @ r) = c # blocks bl n r"
  by simp

lemma cbc_encrypt_blocks_append:
  "cbc_encrypt_blocks key iv (xs @ ys) =
     (fst (cbc_encrypt_blocks key iv xs) @ fst (cbc_encrypt_blocks key (snd (cbc_encrypt_blocks key iv xs)) ys),
      snd (cbc_encrypt_blocks key (snd (cbc_encrypt_blocks key iv xs)) ys))"
  by (induction xs arbitrary: iv) (simp_all add: Let_def)

lemma cbc_decrypt_blocks_append:
  "cbc_decrypt_blocks key iv (xs @ ys) =
     (fst (cbc_decrypt_blocks key iv xs) @ fst (cbc_decrypt_blocks key (snd (cbc_decrypt_blocks key iv xs)) ys),
      snd (cbc_decrypt_blocks key (snd (cbc_decrypt_blocks key iv xs)) ys))"
  by (induction xs arbitrary: iv) (simp_all add: Let_def)

lemma length_cbc_encrypt_blocks [simp]:
  "length (fst (cbc_encrypt_blocks key iv bs)) = 16 * length bs"
  by (induction bs arbitrary: iv) (simp_all add: Let_def)

lemma cbc_decrypt_encrypt_blocks:
  "length iv = 16 \<Longrightarrow> \<forall>b \<in> set bs. length b = 16 \<Longrightarrow>
   cbc_decrypt_blocks key iv (blocks 16 (length bs) (fst (cbc_encrypt_blocks key iv bs)))
     = (concat bs, snd (cbc_encrypt_blocks key iv bs))"
proof (induction bs arbitrary: iv)
  case Nil
  then show ?case by simp
next
  case (Cons b bs)
  let ?c = "aes256_encrypt_block key (xor_bytes b iv)"
  have lc: "length ?c = 16" by simp
  have lx: "length (xor_bytes b iv) = 16" using Cons.prems by simp
  have "xor_bytes (aes256_decrypt_block key ?c) iv = b"
    using Cons.prems by (simp add: aes256_decrypt_encrypt [OF lx] xor_bytes_cancel)
  moreover have "cbc_decrypt_blocks key ?c (blocks 16 (length bs) (fst (cbc_encrypt_blocks key ?c bs)))
      = (concat bs, snd (cbc_encrypt_blocks key ?c bs))"
    using Cons.IH [OF lc] Cons.prems by simp
  ultimately show ?case using lc by (simp add: Let_def)
qed

lemma cbc_decrypt_encrypt:
  assumes "length iv = 16" and "length d mod 16 = 0"
  shows "cbc_decrypt key iv (cbc_encrypt key iv d) = d"
proof -
  let ?n = "length d div 16"
  let ?bs = "blocks 16 ?n d"
  have n16: "16 * ?n = length d" using assms(2) by presburger
  have all: "\<forall>b \<in> set ?bs. length b = 16"
  proof
    fix b assume "b \<in> set ?bs"
    moreover have "16 * ?n \<le> length d" using n16 by simp
    ultimately show "length b = 16" by (rule blocks_all_length [rotated])
  qed
  have len: "length (cbc_encrypt key iv d) = length d"
    by (simp add: cbc_encrypt_def n16)
  have "cbc_decrypt key iv (cbc_encrypt key iv d)
      = fst (cbc_decrypt_blocks key iv (blocks 16 (length ?bs) (fst (cbc_encrypt_blocks key iv ?bs))))"
    unfolding cbc_decrypt_def len by (simp add: cbc_encrypt_def)
  also have "\<dots> = concat ?bs"
    by (simp only: cbc_decrypt_encrypt_blocks [OF assms(1) all] fst_conv)
  also have "\<dots> = d" by (simp add: concat_blocks n16)
  finally show ?thesis .
qed

lemma length_cbc_encrypt: "length (cbc_encrypt key iv d) = 16 * (length d div 16)"
  by (simp add: cbc_encrypt_def)

lemma length_pkcs7_pad: "length (pkcs7_pad p) = padded_length (length p)"
proof -
  have "length p mod 16 < 16" by simp
  then show ?thesis
    by (simp add: pkcs7_pad_def padded_length_def Let_def) presburger
qed

lemma int_of_size_small: "n < 2 ^ 31 \<Longrightarrow> int_of_size n = int n"
proof -
  assume "n < 2 ^ 31"
  then have "int n < 2 ^ 31" by simp
  moreover have "int_of_size n = (int n + 2 ^ 31) mod 2 ^ 32 - 2 ^ 31"
    using int_word_sint [where 'a = 32, of "int n"] by (simp add: int_of_size_def)
  ultimately show ?thesis by simp
qed

lemma int_of_size_2_32: "int_of_size (2 ^ 32) = 0"
  by (simp add: int_of_size_def)

lemma int_of_size_2_31: "int_of_size (2 ^ 31) < 0"
  by (simp add: int_of_size_def)

section \<open>What \<open>encryptDataWithIV\<close> computes\<close>

lemma EVP_CipherInit_ex_ok:
  "length key = 32 \<Longrightarrow> length iv = 16 \<Longrightarrow>
   EVP_CipherInit_ex key iv =
     Inr \<lparr>ctx_key = key, ctx_iv = iv, ctx_buf = [], ctx_final = [], ctx_final_used = False\<rparr>"
  by (simp add: EVP_CipherInit_ex_def AES_KEY_LENGTH_def AES_BLOCK_SIZE_def)

lemma write_at_start:
  "length d \<le> n \<Longrightarrow> write_at (replicate n 0) 0 d = Inr (d @ replicate (n - length d) 0)"
  by (simp add: write_at_def)

lemma write_at_behind:
  "length d \<le> m \<Longrightarrow>
   write_at (a @ replicate m 0) (length a) d = Inr (a @ d @ replicate (m - length d) 0)"
  by (simp add: write_at_def)

lemma resize_prefix: "resize (a @ z) (length a) = a"
  by (simp add: resize_def)

lemma container_pack_ok: "length iv = 16 \<Longrightarrow> container_pack iv ct = Inr (iv @ ct)"
  by (simp add: container_pack_def AES_BLOCK_SIZE_def write_at_def Let_def)

lemma EVP_EncryptUpdate_fresh:
  assumes "length p < 2 ^ 31"
  shows "EVP_EncryptUpdate
           \<lparr>ctx_key = key, ctx_iv = iv, ctx_buf = [], ctx_final = [], ctx_final_used = False\<rparr>
           p (int_of_size (length p)) =
         Inr (\<lparr>ctx_key = key,
               ctx_iv = snd (cbc_encrypt_blocks key iv (blocks 16 (length p div 16) p)),
               ctx_buf = drop (16 * (length p div 16)) p,
               ctx_final = [], ctx_final_used = False\<rparr>,
              fst (cbc_encrypt_blocks key iv (blocks 16 (length p div 16) p)))"
proof (cases "p = []")
  case True
  then show ?thesis by (simp add: EVP_EncryptUpdate_def int_of_size_def)
next
  case False
  then have "0 < int (length p)" by simp
  then show ?thesis
    by (simp add: EVP_EncryptUpdate_def int_of_size_small [OF assms] evp_update_def Let_def)
qed

lemma blocks_one: "length x = bl \<Longrightarrow> blocks bl 1 x = [x]"
  by simp

lemma pad_blocks:
  "blocks 16 (length p div 16 + 1) (pkcs7_pad p) =
   blocks 16 (length p div 16) p @
   [drop (16 * (length p div 16)) p @
    replicate (16 - length p mod 16) (word_of_nat (16 - length p mod 16))]"
proof -
  let ?q = "length p div 16"
  let ?k = "16 - length p mod 16"
  let ?pad = "replicate ?k (word_of_nat ?k :: byte)"
  have q: "16 * ?q \<le> length p" by simp
  have lr: "length (drop (16 * ?q) p @ ?pad) = 16"
  proof -
    have "length p - 16 * ?q = length p mod 16" by (simp add: minus_mult_div_eq_mod mult.commute)
    moreover have "length p mod 16 < 16" by simp
    ultimately show ?thesis by simp
  qed
  have "blocks 16 (?q + 1) (p @ ?pad) = blocks 16 ?q (p @ ?pad) @ blocks 16 1 (drop (16 * ?q) (p @ ?pad))"
    by (rule blocks_add)
  also have "blocks 16 ?q (p @ ?pad) = blocks 16 ?q p"
    using q by (rule blocks_append_left)
  also have "blocks 16 1 (drop (16 * ?q) (p @ ?pad)) = [drop (16 * ?q) p @ ?pad]"
  proof -
    have "drop (16 * ?q) (p @ ?pad) = drop (16 * ?q) p @ ?pad" using q by simp
    then show ?thesis using blocks_one [OF lr] by (simp only:)
  qed
  finally show ?thesis by (simp add: pkcs7_pad_def Let_def)
qed

lemma encrypt_steps:
  assumes "EVP_CipherInit_ex key iv = Inr ctx"
    and "EVP_EncryptUpdate ctx p (int_of_size (length p)) = Inr (ctx1, out1)"
    and "EVP_EncryptFinal_ex ctx1 = Inr out2"
    and "length out1 + length out2 \<le> length p + 16"
    and "int (length out1) + int (length out2) \<le> INT_MAX"
    and "length iv = 16"
  shows "encryptDataWithIV p key iv = Inr (iv @ out1 @ out2)"
  using assms
  by (simp add: encryptDataWithIV_def write_at_def resize_def container_pack_def
        AES_BLOCK_SIZE_def Let_def)

lemma encrypt_summary:
  assumes k: "length key = 32" and i: "length iv = 16" and n: "length p < 2 ^ 31 - 16"
  shows "encryptDataWithIV p key iv = Inr (iv @ cbc_encrypt key iv (pkcs7_pad p))"
proof -
  let ?q = "length p div 16"
  let ?r = "cbc_encrypt_blocks key iv (blocks 16 ?q p)"
  let ?k = "16 - length p mod 16"
  let ?blk = "drop (16 * ?q) p @ replicate ?k (word_of_nat ?k :: byte)"
  let ?ctx1 = "\<lparr>ctx_key = key, ctx_iv = snd ?r, ctx_buf = drop (16 * ?q) p,
                ctx_final = [], ctx_final_used = False\<rparr>"
  define out1 where "out1 = fst ?r"
  define out2 where "out2 = fst (cbc_encrypt_blocks key (snd ?r) [?blk])"
  from n have n31: "length p < 2 ^ 31" by simp
  have l1: "length out1 = 16 * ?q" by (simp add: out1_def)
  have l2: "length out2 = 16" by (simp add: out2_def Let_def)
  have q: "16 * ?q \<le> length p" by simp
  have rem: "length p - 16 * ?q = length p mod 16"
    by (simp add: minus_mult_div_eq_mod mult.commute)
  have upd: "EVP_EncryptUpdate
               \<lparr>ctx_key = key, ctx_iv = iv, ctx_buf = [], ctx_final = [], ctx_final_used = False\<rparr>
               p (int_of_size (length p)) = Inr (?ctx1, out1)"
    unfolding out1_def by (rule EVP_EncryptUpdate_fresh [OF n31])
  have fin: "EVP_EncryptFinal_ex ?ctx1 = Inr out2"
    unfolding out2_def
    by (simp add: EVP_EncryptFinal_ex_def Let_def rem del: cbc_encrypt_blocks.simps)
  have fits: "length out1 + length out2 \<le> length p + 16" using q l1 l2 by simp
  have len: "int (length out1) + int (length out2) \<le> INT_MAX"
  proof -
    have "length out1 + length out2 < 2 ^ 31" using fits n by simp
    then have "int (length out1 + length out2) < 2 ^ 31"
      by (metis of_nat_less_iff of_nat_numeral of_nat_power)
    then show ?thesis by (simp add: INT_MAX_def)
  qed
  have body: "cbc_encrypt key iv (pkcs7_pad p) = out1 @ out2"
  proof -
    have dv: "length (pkcs7_pad p) div 16 = ?q + 1"
      by (simp add: length_pkcs7_pad padded_length_def)
    show ?thesis
      unfolding cbc_encrypt_def dv pad_blocks cbc_encrypt_blocks_append out1_def out2_def
      by (simp only: fst_conv)
  qed
  show ?thesis
    unfolding body
    by (rule encrypt_steps [OF EVP_CipherInit_ex_ok [OF k i] upd fin fits len i])
qed

section \<open>The padding check of the final call\<close>

lemma length_aes256_decrypt_block [simp]: "length (aes256_decrypt_block key c) = 16"
proof -
  have "round_keys key \<noteq> []" using round_keys_props(1) [of key] by auto
  then have "hd (round_keys key) \<in> set (round_keys key)" by simp
  then have "length (hd (round_keys key)) = 16" using round_keys_props(2) by blast
  then show ?thesis by (simp add: aes256_decrypt_block_def inv_cipher_def Let_def)
qed

lemma unat_byte_of_nat: "n \<le> 16 \<Longrightarrow> unat (word_of_nat n :: byte) = n"
  by (simp add: unat_of_nat)

lemma well_padded_iff:
  "well_padded blk \<longleftrightarrow>
     (\<exists>n. 1 \<le> n \<and> n \<le> 16 \<and> drop (length blk - n) blk = replicate n (word_of_nat n))"
  by (auto simp add: well_padded_def list_ex_iff)

lemma final_check:
  assumes "length blk = 16"
  shows "well_padded blk \<longleftrightarrow>
           \<not> (unat (blk ! 15) = 0 \<or> 16 < unat (blk ! 15)) \<and>
           \<not> list_ex (\<lambda>i. blk ! (15 - i) \<noteq> blk ! 15) [0..<unat (blk ! 15)]"
    (is "?L \<longleftrightarrow> ?R")
proof
  assume ?L
  then obtain n where n: "1 \<le> n" "n \<le> 16"
    and d: "drop (16 - n) blk = replicate n (word_of_nat n)"
    using assms by (auto simp add: well_padded_iff)
  have nth: "blk ! (16 - n + j) = word_of_nat n" if "j < n" for j
  proof -
    have "drop (16 - n) blk ! j = blk ! (16 - n + j)" using assms n that by simp
    with d that show ?thesis by simp
  qed
  have "blk ! 15 = word_of_nat n" using nth [of "n - 1"] n by simp
  then have u: "unat (blk ! 15) = n" using n by (simp add: unat_byte_of_nat)
  have "blk ! (15 - i) = blk ! 15" if "i < n" for i
  proof -
    have "15 - i = 16 - n + (n - 1 - i)" using that n by simp
    then have "blk ! (15 - i) = word_of_nat n" using nth [of "n - 1 - i"] that n by simp
    then show ?thesis using \<open>blk ! 15 = word_of_nat n\<close> by simp
  qed
  with u n show ?R by (auto simp add: list_ex_iff)
next
  assume r: ?R
  let ?n = "unat (blk ! 15)"
  from r have n: "1 \<le> ?n" "?n \<le> 16" by auto
  from r have eq: "blk ! (15 - i) = blk ! 15" if "i < ?n" for i
    using that by (auto simp add: list_ex_iff)
  have w: "word_of_nat ?n = blk ! 15" by simp
  have "drop (16 - ?n) blk = replicate ?n (blk ! 15)"
  proof (rule nth_equalityI)
    show "length (drop (16 - ?n) blk) = length (replicate ?n (blk ! 15))"
      using assms n by simp
  next
    fix j assume "j < length (drop (16 - ?n) blk)"
    then have j: "j < ?n" using assms n by simp
    have "drop (16 - ?n) blk ! j = blk ! (16 - ?n + j)" using assms n j by simp
    also have "16 - ?n + j = 15 - (?n - 1 - j)" using n j by simp
    also have "blk ! (15 - (?n - 1 - j)) = blk ! 15" using eq [of "?n - 1 - j"] j by simp
    finally show "drop (16 - ?n) blk ! j = replicate ?n (blk ! 15) ! j" using j by simp
  qed
  then have "drop (length blk - ?n) blk = replicate ?n (word_of_nat ?n)"
    using assms by (simp only: w)
  with n show ?L unfolding well_padded_iff by blast
qed

lemma EVP_DecryptFinal_ex_held:
  assumes "ctx_buf ctx = []" and "ctx_final_used ctx" and "length (ctx_final ctx) = 16"
  shows "EVP_DecryptFinal_ex ctx =
           (if well_padded (ctx_final ctx)
            then Inr (take (16 - unat (ctx_final ctx ! 15)) (ctx_final ctx))
            else Inl BAD_DECRYPT)"
  unfolding final_check [OF assms(3)] using assms(1,2)
  by (simp add: EVP_DecryptFinal_ex_def Let_def)

lemma EVP_DecryptFinal_ex_partial:
  "ctx_buf ctx \<noteq> [] \<or> \<not> ctx_final_used ctx \<Longrightarrow>
   EVP_DecryptFinal_ex ctx = Inl WRONG_FINAL_BLOCK_LENGTH"
  by (auto simp add: EVP_DecryptFinal_ex_def)

section \<open>What \<open>decryptDataWithIV\<close> computes\<close>

lemma length_cbc_decrypt_blocks:
  "length iv = 16 \<Longrightarrow> (\<And>b. b \<in> set bs \<Longrightarrow> length b = 16) \<Longrightarrow>
   length (fst (cbc_decrypt_blocks key iv bs)) = 16 * length bs"
proof (induction bs arbitrary: iv)
  case Nil
  then show ?case by simp
next
  case (Cons c cs)
  have "length c = 16" using Cons.prems(2) by simp
  then have "length (fst (cbc_decrypt_blocks key c cs)) = 16 * length cs"
    using Cons.prems(2) by (intro Cons.IH) simp_all
  then show ?case using Cons.prems(1) by (simp add: Let_def)
qed

lemma length_cbc_decrypt:
  assumes "length iv = 16"
  shows "length (cbc_decrypt key iv d) = 16 * (length d div 16)"
proof -
  have le: "16 * (length d div 16) \<le> length d" by simp
  have "length (fst (cbc_decrypt_blocks key iv (blocks 16 (length d div 16) d)))
          = 16 * length (blocks 16 (length d div 16) d)"
    by (rule length_cbc_decrypt_blocks [OF assms]) (rule blocks_all_length [OF le])
  then show ?thesis by (simp only: cbc_decrypt_def length_blocks)
qed

lemma container_unpack_ok:
  "length iv = 16 \<Longrightarrow> container_unpack (iv @ body) = Inr (iv, body)"
  by (simp add: container_unpack_def AES_BLOCK_SIZE_def)

lemma EVP_DecryptUpdate_fresh:
  assumes "body \<noteq> []" and "length body < 2 ^ 31"
  shows "EVP_DecryptUpdate
           \<lparr>ctx_key = key, ctx_iv = iv, ctx_buf = [], ctx_final = [], ctx_final_used = False\<rparr>
           body (int_of_size (length body)) =
         (let r = cbc_decrypt_blocks key iv (blocks 16 (length body div 16) body);
              rest = drop (16 * (length body div 16)) body
          in if rest = []
             then Inr (\<lparr>ctx_key = key, ctx_iv = snd r, ctx_buf = [],
                        ctx_final = drop (length (fst r) - 16) (fst r), ctx_final_used = True\<rparr>,
                       take (length (fst r) - 16) (fst r))
             else Inr (\<lparr>ctx_key = key, ctx_iv = snd r, ctx_buf = rest,
                        ctx_final = [], ctx_final_used = False\<rparr>, fst r))"
proof -
  from assms(1) have "0 < int (length body)" by simp
  then show ?thesis
    by (simp add: EVP_DecryptUpdate_def int_of_size_small [OF assms(2)] evp_update_def Let_def)
qed

lemma decrypt_steps:
  assumes "container_unpack c = Inr (iv, body)"
    and "EVP_CipherInit_ex key iv = Inr ctx"
    and "EVP_DecryptUpdate ctx body (int_of_size (length c - 16)) = Inr (ctx1, out1)"
    and "EVP_DecryptFinal_ex ctx1 = Inr out2"
    and "length out1 + length out2 \<le> length c - 16"
    and "int (length out1) + int (length out2) \<le> INT_MAX"
  shows "decryptDataWithIV c key = Inr (out1 @ out2)"
  using assms
  by (simp add: decryptDataWithIV_def write_at_def resize_def AES_BLOCK_SIZE_def Let_def)

lemma decrypt_steps_final_error:
  assumes "container_unpack c = Inr (iv, body)"
    and "EVP_CipherInit_ex key iv = Inr ctx"
    and "EVP_DecryptUpdate ctx body (int_of_size (length c - 16)) = Inr (ctx1, out1)"
    and "EVP_DecryptFinal_ex ctx1 = Inl e"
    and "length out1 \<le> length c - 16"
  shows "decryptDataWithIV c key = Inl (Abort e)"
  using assms
  by (simp add: decryptDataWithIV_def write_at_def handleErrors_def AES_BLOCK_SIZE_def Let_def)

lemma decrypt_summary:
  assumes k: "length key = 32" and i: "length iv = 16"
    and m0: "body \<noteq> []" and m16: "length body mod 16 = 0" and m31: "length body < 2 ^ 31"
  shows "decryptDataWithIV (iv @ body) key =
           (let pt = cbc_decrypt key iv body
            in if well_padded (drop (length body - 16) pt)
               then Inr (take (length body - unat (pt ! (length body - 1))) pt)
               else Inl (Abort BAD_DECRYPT))"
proof -
  let ?m = "length body"
  let ?r = "cbc_decrypt_blocks key iv (blocks 16 (?m div 16) body)"
  define pt where "pt = cbc_decrypt key iv body"
  have pt: "fst ?r = pt" by (simp add: pt_def cbc_decrypt_def)
  have m: "16 * (?m div 16) = ?m" using m16 by presburger
  have lpt: "length pt = ?m" unfolding pt_def length_cbc_decrypt [OF i] by (rule m)
  have m_ge: "16 \<le> ?m" using m0 m16 by (cases "?m div 16") (use m in auto)
  let ?ctx1 = "\<lparr>ctx_key = key, ctx_iv = snd ?r, ctx_buf = [],
                ctx_final = drop (?m - 16) pt, ctx_final_used = True\<rparr>"
  have upd: "EVP_DecryptUpdate
               \<lparr>ctx_key = key, ctx_iv = iv, ctx_buf = [], ctx_final = [], ctx_final_used = False\<rparr>
               body (int_of_size (length (iv @ body) - 16)) = Inr (?ctx1, take (?m - 16) pt)"
    using EVP_DecryptUpdate_fresh [OF m0 m31, of key iv] i
    by (simp add: Let_def m pt lpt)
  have lf: "length (ctx_final ?ctx1) = 16" using lpt m_ge by simp
  have last: "drop (?m - 16) pt ! 15 = pt ! (?m - 1)" using lpt m_ge by simp
  have fin: "EVP_DecryptFinal_ex ?ctx1 =
               (if well_padded (drop (?m - 16) pt)
                then Inr (take (16 - unat (pt ! (?m - 1))) (drop (?m - 16) pt))
                else Inl BAD_DECRYPT)"
    using EVP_DecryptFinal_ex_held [of ?ctx1, OF _ _ lf] by (simp add: last)
  have lo1: "length (take (?m - 16) pt) = ?m - 16" using lpt by simp
  show ?thesis
  proof (cases "well_padded (drop (?m - 16) pt)")
    case False
    then have f: "EVP_DecryptFinal_ex ?ctx1 = Inl BAD_DECRYPT" using fin by simp
    have "decryptDataWithIV (iv @ body) key = Inl (Abort BAD_DECRYPT)"
      by (rule decrypt_steps_final_error
            [OF container_unpack_ok [OF i] EVP_CipherInit_ex_ok [OF k i] upd f])
         (use i lo1 in simp)
    with False show ?thesis by (simp add: pt_def [symmetric] Let_def)
  next
    case True
    let ?n = "unat (pt ! (?m - 1))"
    let ?out2 = "take (16 - ?n) (drop (?m - 16) pt)"
    from True have f: "EVP_DecryptFinal_ex ?ctx1 = Inr ?out2" using fin by simp
    have n: "1 \<le> ?n" "?n \<le> 16"
      using True final_check [of "drop (?m - 16) pt"] lf last by auto
    have lo2: "length ?out2 = 16 - ?n" using lpt m_ge by simp
    have fits: "length (take (?m - 16) pt) + length ?out2 \<le> length (iv @ body) - 16"
      unfolding lo1 lo2 using i m_ge by simp
    have "length (take (?m - 16) pt) + length ?out2 < 2 ^ 31"
      unfolding lo1 lo2 using m31 m_ge by simp
    then have "int (length (take (?m - 16) pt) + length ?out2) < 2 ^ 31"
      by (metis of_nat_less_iff of_nat_numeral of_nat_power)
    then have len: "int (length (take (?m - 16) pt)) + int (length ?out2) \<le> INT_MAX"
      by (simp add: INT_MAX_def)
    have "decryptDataWithIV (iv @ body) key = Inr (take (?m - 16) pt @ ?out2)"
      by (rule decrypt_steps
            [OF container_unpack_ok [OF i] EVP_CipherInit_ex_ok [OF k i] upd f fits len])
    moreover have "take (?m - 16) pt @ ?out2 = take (?m - ?n) pt"
    proof -
      have "?m - ?n = (?m - 16) + (16 - ?n)" using n m_ge by simp
      then show ?thesis by (simp only: take_add)
    qed
    ultimately show ?thesis using True by (simp add: pt_def [symmetric] Let_def)
  qed
qed

lemma decrypt_wrong_length:
  assumes k: "length key = 32" and i: "length iv = 16"
    and m16: "body = [] \<or> length body mod 16 \<noteq> 0" and m31: "length body < 2 ^ 31"
  shows "decryptDataWithIV (iv @ body) key = Inl (Abort WRONG_FINAL_BLOCK_LENGTH)"
proof (cases "body = []")
  case True
  let ?ctx = "\<lparr>ctx_key = key, ctx_iv = iv, ctx_buf = [], ctx_final = [], ctx_final_used = False\<rparr>"
  have upd: "EVP_DecryptUpdate ?ctx body (int_of_size (length (iv @ body) - 16)) = Inr (?ctx, [])"
    using True i by (simp add: EVP_DecryptUpdate_def int_of_size_def)
  have f: "EVP_DecryptFinal_ex ?ctx = Inl WRONG_FINAL_BLOCK_LENGTH"
    by (rule EVP_DecryptFinal_ex_partial) simp
  show ?thesis
    by (rule decrypt_steps_final_error
          [OF container_unpack_ok [OF i] EVP_CipherInit_ex_ok [OF k i] upd f]) simp
next
  case False
  with m16 have nz: "length body mod 16 \<noteq> 0" by simp
  let ?q = "length body div 16"
  let ?r = "cbc_decrypt_blocks key iv (blocks 16 ?q body)"
  let ?rest = "drop (16 * ?q) body"
  have rest: "?rest \<noteq> []"
  proof -
    have "length body - 16 * ?q = length body mod 16"
      by (simp add: minus_mult_div_eq_mod mult.commute)
    with nz show ?thesis by auto
  qed
  let ?ctx1 = "\<lparr>ctx_key = key, ctx_iv = snd ?r, ctx_buf = ?rest, ctx_final = [], ctx_final_used = False\<rparr>"
  have upd: "EVP_DecryptUpdate
               \<lparr>ctx_key = key, ctx_iv = iv, ctx_buf = [], ctx_final = [], ctx_final_used = False\<rparr>
               body (int_of_size (length (iv @ body) - 16)) = Inr (?ctx1, fst ?r)"
    using EVP_DecryptUpdate_fresh [OF False m31, of key iv] i rest
    by (simp add: Let_def)
  have f: "EVP_DecryptFinal_ex ?ctx1 = Inl WRONG_FINAL_BLOCK_LENGTH"
    by (rule EVP_DecryptFinal_ex_partial) (use rest in simp)
  have q: "16 * ?q \<le> length body" by simp
  have "length (fst ?r) = 16 * length (blocks 16 ?q body)"
    by (rule length_cbc_decrypt_blocks [OF i]) (rule blocks_all_length [OF q])
  then have "length (fst ?r) = 16 * ?q" by (simp only: length_blocks)
  then have le: "length (fst ?r) \<le> length (iv @ body) - 16" using i by simp
  show ?thesis
    by (rule decrypt_steps_final_error
          [OF container_unpack_ok [OF i] EVP_CipherInit_ex_ok [OF k i] upd f le])
qed

section \<open>Decrypting what was encrypted\<close>

lemma pad_last_block:
  "drop (length (pkcs7_pad p) - 16) (pkcs7_pad p) =
   drop (16 * (length p div 16)) p @
   replicate (16 - length p mod 16) (word_of_nat (16 - length p mod 16))"
proof -
  have "length (pkcs7_pad p) - 16 = 16 * (length p div 16)"
    by (simp add: length_pkcs7_pad padded_length_def)
  moreover have "16 * (length p div 16) \<le> length p" by simp
  ultimately show ?thesis by (simp add: pkcs7_pad_def Let_def)
qed

lemma well_padded_pad: "well_padded (drop (length (pkcs7_pad p) - 16) (pkcs7_pad p))"
proof -
  let ?k = "16 - length p mod 16"
  let ?blk = "drop (16 * (length p div 16)) p @ replicate ?k (word_of_nat ?k :: byte)"
  have k: "1 \<le> ?k" "?k \<le> 16" by simp_all
  have rem: "length p - 16 * (length p div 16) = length p mod 16" by presburger
  have "length (drop (16 * (length p div 16)) p) = length ?blk - ?k"
    by (simp add: rem)
  then have "drop (length ?blk - ?k) ?blk = replicate ?k (word_of_nat ?k)"
    by (simp only: drop_append length_drop) simp
  with k show ?thesis unfolding pad_last_block well_padded_iff by blast
qed

lemma pad_last_byte:
  "unat (pkcs7_pad p ! (length (pkcs7_pad p) - 1)) = 16 - length p mod 16"
proof -
  let ?k = "16 - length p mod 16"
  have k: "1 \<le> ?k" "?k \<le> 16" by simp_all
  have l: "length (pkcs7_pad p) = length p + ?k" by (simp add: pkcs7_pad_def Let_def)
  have "pkcs7_pad p ! (length p + (?k - 1)) = (word_of_nat ?k :: byte)"
    unfolding pkcs7_pad_def Let_def using k by (simp only: nth_append_length_plus) simp
  moreover have "length (pkcs7_pad p) - 1 = length p + (?k - 1)" using l k by simp
  ultimately show ?thesis using unat_byte_of_nat [OF k(2)] by simp
qed

lemma roundtrip:
  assumes k: "length key = 32" and i: "length iv = 16" and n: "length p < 2 ^ 31 - 16"
  shows "decryptDataWithIV (iv @ cbc_encrypt key iv (pkcs7_pad p)) key = Inr p"
proof -
  let ?pp = "pkcs7_pad p"
  let ?body = "cbc_encrypt key iv ?pp"
  have lpp: "length ?pp = (length p div 16 + 1) * 16"
    by (simp add: length_pkcs7_pad padded_length_def)
  then have m16: "length ?pp mod 16 = 0" by simp
  have lb: "length ?body = length ?pp"
    unfolding length_cbc_encrypt using m16 by presburger
  have b0: "?body \<noteq> []" using lb lpp by auto
  have b16: "length ?body mod 16 = 0" using lb m16 by simp
  have "length ?pp \<le> length p + 16" unfolding lpp by simp
  then have b31: "length ?body < 2 ^ 31" using lb n by simp
  have pt: "cbc_decrypt key iv ?body = ?pp" by (rule cbc_decrypt_encrypt [OF i m16])
  have "take (length ?pp - (16 - length p mod 16)) ?pp = p"
    by (simp add: pkcs7_pad_def Let_def)
  then show ?thesis
    unfolding decrypt_summary [OF k i b0 b16 b31] pt lb Let_def
    by (simp only: well_padded_pad pad_last_byte if_True)
qed

lemma encrypt_wrapped:
  assumes k: "length key = 32" and i: "length iv = 16" and z: "int_of_size (length p) = 0"
  shows "encryptDataWithIV p key iv = Inr (iv @ cbc_encrypt key iv (pkcs7_pad []))"
proof -
  let ?ctx = "\<lparr>ctx_key = key, ctx_iv = iv, ctx_buf = [], ctx_final = [], ctx_final_used = False\<rparr>"
  define out2 where "out2 = fst (cbc_encrypt_blocks key iv [replicate 16 (16 :: byte)])"
  have l2: "length out2 = 16" by (simp add: out2_def Let_def)
  have upd: "EVP_EncryptUpdate ?ctx p (int_of_size (length p)) = Inr (?ctx, [])"
    by (simp add: EVP_EncryptUpdate_def z)
  have fin: "EVP_EncryptFinal_ex ?ctx = Inr out2"
    unfolding out2_def by (simp add: EVP_EncryptFinal_ex_def Let_def del: cbc_encrypt_blocks.simps)
  have fits: "length ([] :: byte list) + length out2 \<le> length p + 16" using l2 by simp
  have len: "int (length ([] :: byte list)) + int (length out2) \<le> INT_MAX"
    using l2 by (simp add: INT_MAX_def)
  have "pkcs7_pad [] = replicate 16 16" by (simp add: pkcs7_pad_def)
  then have body: "cbc_encrypt key iv (pkcs7_pad []) = out2"
    unfolding out2_def cbc_encrypt_def by (simp del: cbc_encrypt_blocks.simps add: blocks_one)
  have "encryptDataWithIV p key iv = Inr (iv @ [] @ out2)"
    by (rule encrypt_steps [OF EVP_CipherInit_ex_ok [OF k i] upd fin fits len i])
  then show ?thesis by (simp add: body)
qed

lemma length_container_body:
  "length (cbc_encrypt key iv (pkcs7_pad p)) = (length p div 16 + 1) * 16"
proof -
  have "length (pkcs7_pad p) div 16 = length p div 16 + 1"
    by (simp add: length_pkcs7_pad padded_length_def)
  then show ?thesis by (simp add: length_cbc_encrypt)
qed

lemma encrypt_result_prefix:
  assumes "encryptDataWithIV p key iv = Inr c" and "length iv = 16"
  shows "take 16 c = iv"
proof -
  from assms(1) obtain ct where "container_pack iv ct = Inr c"
    by (auto simp add: encryptDataWithIV_def Let_def handleErrors_def
        split: sum.splits prod.splits if_splits)
  with assms(2) show ?thesis by (auto simp add: container_pack_ok)
qed

section \<open>Key derivation and runs of the program\<close>

lemma length_sha1 [simp]: "length (sha1 m) = 20"
proof -
  have "length (sha1_output s) = 20" for s
    by (cases s) (simp add: bytes_of_word_def)
  then show ?thesis by (simp add: sha1_def Let_def)
qed

lemma length_hmac_sha1 [simp]: "length (hmac_sha1 key msg) = 20"
  by (simp add: hmac_sha1_def Let_def)

lemma length_pbkdf2_fold:
  "length (snd ut) = 20 \<Longrightarrow> length (snd (fold (pbkdf2_iter pass) js ut)) = 20"
  by (induction js arbitrary: ut) (simp_all add: pbkdf2_iter_def Let_def)

lemma length_pbkdf2_block [simp]: "length (pbkdf2_block pass salt iter i) = 20"
  by (simp add: pbkdf2_block_def Let_def length_pbkdf2_fold)

lemma length_pbkdf2_32: "length (pbkdf2_hmac_sha1 pass salt iter 32) = 32"
proof -
  have "[1..<Suc ((32 + 19) div 20)] = [1, 2]" by (simp add: upt_conv_Cons)
  then show ?thesis by (simp add: pbkdf2_hmac_sha1_def)
qed

lemma generateKeyFromPassword_ok:
  assumes "length pw < 2 ^ 31"
  shows "generateKeyFromPassword pw =
           Inr (pbkdf2_hmac_sha1 (map of_char pw) (map of_char ''12345678'') 10000 32)"
proof -
  have "int_of_size (length pw) = int (length pw)" by (rule int_of_size_small [OF assms])
  moreover have "int (length pw) \<noteq> - 1" by simp
  ultimately show ?thesis
    by (simp add: generateKeyFromPassword_def PKCS5_PBKDF2_HMAC_SHA1_def AES_KEY_LENGTH_def Let_def)
qed

lemma short_container:
  "length c < 16 \<Longrightarrow> decryptDataWithIV c key = Inl OutOfRange"
  by (simp add: decryptDataWithIV_def container_unpack_def AES_BLOCK_SIZE_def)

lemma scan_decrypt_args:
  "getopt_scan perm [''-d'', ''-i'', infile, ''-o'', outfile, ''-p'', pw] =
     [(CHR ''d'', [], []), (CHR ''i'', infile, []), (CHR ''o'', outfile, []), (CHR ''p'', pw, [])]"
  by simp

lemma scan_encrypt_args:
  "getopt_scan perm [''-e'', ''-i'', infile, ''-o'', outfile, ''-p'', pw] =
     [(CHR ''e'', [], []), (CHR ''i'', infile, []), (CHR ''o'', outfile, []), (CHR ''p'', pw, [])]"
  by simp

lemma main_decrypt:
  assumes "infile \<noteq> []" and "outfile \<noteq> []" and "pw \<noteq> []" and "length pw < 2 ^ 31"
    and "files w infile = Some d"
  shows "main prog [''-d'', ''-i'', infile, ''-o'', outfile, ''-p'', pw] w =
           (case decryptDataWithIV d
                   (pbkdf2_hmac_sha1 (map of_char pw) (map of_char ''12345678'') 10000 32) of
              Inl e \<Rightarrow> stop w (decrypt_stdout (memory_at w d)) e
            | Inr r \<Rightarrow> finish w (decrypt_stdout (memory_at w d))
                \<lparr>inputFile = infile, outputFile = outfile, password = pw, encrypt = False, decrypt = True\<rparr> r)"
  using assms(1,2,3,5)
  by (simp add: main_def scan_decrypt_args generateKeyFromPassword_ok [OF assms(4)] readFile_def
      del: getopt_scan.simps getopt_cluster.simps)

lemma main_encrypt:
  assumes "infile \<noteq> []" and "outfile \<noteq> []" and "pw \<noteq> []" and "length pw < 2 ^ 31"
    and "files w infile = Some d" and "rand_ret w \<noteq> 0"
  shows "main prog [''-e'', ''-i'', infile, ''-o'', outfile, ''-p'', pw] w =
           (case encryptDataWithIV d
                   (pbkdf2_hmac_sha1 (map of_char pw) (map of_char ''12345678'') 10000 32)
                   (map (rand_out w) [0..<16]) of
              Inl e \<Rightarrow> stop w (iv_line ''Generated IV: '' (map (rand_out w) [0..<16])) e
            | Inr r \<Rightarrow> finish w (iv_line ''Generated IV: '' (map (rand_out w) [0..<16]))
                \<lparr>inputFile = infile, outputFile = outfile, password = pw, encrypt = True, decrypt = False\<rparr> r)"
  using assms(1,2,3,5,6)
  by (simp add: main_def scan_encrypt_args generateKeyFromPassword_ok [OF assms(4)] readFile_def
        AES_BLOCK_SIZE_def Let_def
      del: getopt_scan.simps getopt_cluster.simps upt.simps)

lemma zero_last_not_well_padded:
  "length blk = 16 \<Longrightarrow> blk ! 15 = 0 \<Longrightarrow> \<not> well_padded blk"
  by (simp add: final_check)

lemma bad_padding:
  assumes "length key = 32" and "length iv = 16" and "body \<noteq> []"
    and "length body mod 16 = 0" and "length body < 2 ^ 31"
    and "\<not> well_padded (drop (length body - 16) (cbc_decrypt key iv body))"
  shows "decryptDataWithIV (iv @ body) key = Inl (Abort BAD_DECRYPT)"
  using assms(6) by (simp add: decrypt_summary [OF assms(1-5)] Let_def)

lemma decrypt_result_prefix:
  assumes k: "length key = 32" and i: "length iv = 16" and m: "length body < 2 ^ 31"
    and r: "decryptDataWithIV (iv @ body) key = Inr p"
  shows "p = take (length p) (cbc_decrypt key iv body)"
proof (cases "body = [] \<or> length body mod 16 \<noteq> 0")
  case True
  from decrypt_wrong_length [OF k i True m] r show ?thesis by simp
next
  case False
  then have b: "body \<noteq> []" "length body mod 16 = 0" by simp_all
  let ?pt = "cbc_decrypt key iv body"
  from r have "p = take (length body - unat (?pt ! (length body - 1))) ?pt"
    unfolding decrypt_summary [OF k i b m] Let_def by (simp split: if_splits)
  then obtain j where "p = take j ?pt" by blast
  then show ?thesis by (simp add: min_def)
qed

lemma decrypt_stdout_container:
  "length iv = 16 \<Longrightarrow> decrypt_stdout (iv @ ct) = iv_line ''Extracted IV: '' iv"
  by (simp add: decrypt_stdout_def AES_BLOCK_SIZE_def)

lemma memory_at_long: "16 \<le> length d \<Longrightarrow> memory_at w d = d"
  by (simp add: memory_at_def AES_BLOCK_SIZE_def)

section \<open>How a run ends, and the option parser\<close>


lemma stop_stdout: "out_stdout (stop w out e) = out"
  by (cases e) simp_all

lemma finish_cases:
  "finish w out f r =
     (if can_write w (outputFile f)
      then \<lparr>out_stdout = out @ ''Operation '' @ (if encrypt f then ''encryption'' else ''decryption'')
                         @ '' completed successfully!'' @ [CHR 0x0A],
            out_stderr = [], out_status = Exited 0,
            out_files = (files w)(outputFile f \<mapsto> r)\<rparr>
      else stop w out (CannotOpen (outputFile f)))"
  by (simp add: finish_def writeFile_def)

lemma getopt_chars:
  "r \<in> set (getopt_scan perm args) \<Longrightarrow>
     fst r \<in> {CHR ''e'', CHR ''d'', CHR ''i'', CHR ''o'', CHR ''p'', CHR ''?''}"
  "r \<in> set (getopt_cluster perm cl args) \<Longrightarrow>
     fst r \<in> {CHR ''e'', CHR ''d'', CHR ''i'', CHR ''o'', CHR ''p'', CHR ''?''}"
  by (induction perm args and perm cl args rule: getopt_scan_getopt_cluster.induct)
     (auto split: if_splits list.splits)

lemma parse_options_Inl:
  "(\<exists>msgs. parse_options opts f = Inl msgs) \<longleftrightarrow>
     (\<exists>r \<in> set opts. fst r \<notin> {CHR ''e'', CHR ''d'', CHR ''i'', CHR ''o'', CHR ''p''})"
  by (induction opts f rule: parse_options.induct) auto

lemma flag_given_Cons:
  "flag_given c (r # rs) \<longleftrightarrow> fst r = c \<or> flag_given c rs"
  by (simp add: flag_given_def)

lemma flag_given_Nil: "\<not> flag_given c []"
  by (simp add: flag_given_def)

lemma option_value_Nil: "option_value c [] = []"
  by (simp add: option_value_def)

lemma option_value_Cons:
  "option_value c (r # rs) =
     (if fst r = c then (if flag_given c rs then option_value c rs else fst (snd r))
      else option_value c rs)"
proof -
  have "filter (\<lambda>r. fst r = c) rs = [] \<longleftrightarrow> \<not> flag_given c rs"
    by (auto simp add: flag_given_def list_ex_iff filter_empty_conv)
  then show ?thesis
    by (auto simp add: option_value_def split: list.splits)
qed

lemma parse_options_Inr:
  "parse_options opts f = Inr g \<Longrightarrow>
     encrypt g = (encrypt f \<or> flag_given (CHR ''e'') opts) \<and>
     decrypt g = (decrypt f \<or> flag_given (CHR ''d'') opts) \<and>
     inputFile g = (if flag_given (CHR ''i'') opts then option_value (CHR ''i'') opts else inputFile f) \<and>
     outputFile g = (if flag_given (CHR ''o'') opts then option_value (CHR ''o'') opts else outputFile f) \<and>
     password g = (if flag_given (CHR ''p'') opts then option_value (CHR ''p'') opts else password f)"
proof (induction opts f rule: parse_options.induct)
  case (1 f)
  then show ?case by (simp add: flag_given_Nil)
next
  case (2 opt optarg msgs rs f)
  then show ?case
    by (simp add: flag_given_Cons option_value_Cons split: if_splits)
qed

lemma option_value_not_given: "\<not> flag_given c opts \<Longrightarrow> option_value c opts = []"
  by (induction opts) (simp_all add: option_value_Nil option_value_Cons flag_given_Cons)

lemma main_parsed:
  assumes "parse_options (getopt_scan (\<not> posixly_correct w) args)
             \<lparr>inputFile = [], outputFile = [], password = [], encrypt = False, decrypt = False\<rparr>
           = Inr f"
    and "encrypt f \<noteq> decrypt f" and "inputFile f \<noteq> []" and "outputFile f \<noteq> []"
    and "password f \<noteq> []"
  shows "main prog args w =
           (case generateKeyFromPassword (password f) of
              Inl e \<Rightarrow> stop w [] e
            | Inr key \<Rightarrow>
           (case readFile w (inputFile f) of
              Inl e \<Rightarrow> stop w [] e
            | Inr fileData \<Rightarrow>
           (if encrypt f then
              (if rand_ret w = 0 then stop w [] (Abort RAND_FAILED)
               else
                 case encryptDataWithIV fileData key (map (rand_out w) [0..<16]) of
                   Inl e \<Rightarrow> stop w (iv_line ''Generated IV: '' (map (rand_out w) [0..<16])) e
                 | Inr resultData \<Rightarrow>
                     finish w (iv_line ''Generated IV: '' (map (rand_out w) [0..<16])) f resultData)
            else
              (case decryptDataWithIV fileData key of
                 Inl e \<Rightarrow> stop w (decrypt_stdout (memory_at w fileData)) e
               | Inr resultData \<Rightarrow>
                   finish w (decrypt_stdout (memory_at w fileData)) f resultData))))"
  using assms(2-5) unfolding main_def assms(1)
  by (auto simp add: AES_BLOCK_SIZE_def Let_def split: sum.splits simp del: upt.simps)

lemma main_usage:
  assumes "(\<exists>msgs. parse_options (getopt_scan (\<not> posixly_correct w) args)
             \<lparr>inputFile = [], outputFile = [], password = [], encrypt = False, decrypt = False\<rparr>
           = Inl msgs) \<or>
           (\<exists>f. parse_options (getopt_scan (\<not> posixly_correct w) args)
             \<lparr>inputFile = [], outputFile = [], password = [], encrypt = False, decrypt = False\<rparr>
               = Inr f \<and>
              (encrypt f = decrypt f \<or> inputFile f = [] \<or> outputFile f = [] \<or> password f = []))"
  shows "\<exists>msgs. main prog args w = usage_exit w prog msgs"
  using assms unfolding main_def by auto

lemma parsed_flags:
  assumes "parse_options opts
             \<lparr>inputFile = [], outputFile = [], password = [], encrypt = False, decrypt = False\<rparr>
           = Inr f"
  shows "encrypt f = flag_given (CHR ''e'') opts" "decrypt f = flag_given (CHR ''d'') opts"
    "inputFile f = option_value (CHR ''i'') opts" "outputFile f = option_value (CHR ''o'') opts"
    "password f = option_value (CHR ''p'') opts"
  using parse_options_Inr [OF assms] by (auto simp add: option_value_not_given)

lemma usage_error_main:
  assumes "usage_error (getopt_scan (\<not> posixly_correct w) args)"
  shows "\<exists>msgs. main prog args w = usage_exit w prog msgs"
proof (rule main_usage)
  let ?opts = "getopt_scan (\<not> posixly_correct w) args"
  let ?init = "\<lparr>inputFile = [], outputFile = [], password = [], encrypt = False, decrypt = False\<rparr>"
  show "(\<exists>msgs. parse_options ?opts ?init = Inl msgs) \<or>
        (\<exists>f. parse_options ?opts ?init = Inr f \<and>
           (encrypt f = decrypt f \<or> inputFile f = [] \<or> outputFile f = [] \<or> password f = []))"
  proof (cases "parse_options ?opts ?init")
    case (Inl msgs)
    then show ?thesis by simp
  next
    case (Inr f)
    then have "\<not> (\<exists>msgs. parse_options ?opts ?init = Inl msgs)" by simp
    then have "\<not> flag_given (CHR ''?'') ?opts"
      unfolding parse_options_Inl by (auto simp add: flag_given_def list_ex_iff)
    with assms show ?thesis
      unfolding usage_error_def using parsed_flags [OF Inr] Inr by auto
  qed
qed

lemma no_usage_error_parsed:
  assumes "\<not> usage_error (getopt_scan (\<not> posixly_correct w) args)"
  shows "\<exists>f. parse_options (getopt_scan (\<not> posixly_correct w) args)
               \<lparr>inputFile = [], outputFile = [], password = [], encrypt = False, decrypt = False\<rparr>
             = Inr f \<and>
             encrypt f \<noteq> decrypt f \<and> inputFile f \<noteq> [] \<and> outputFile f \<noteq> [] \<and> password f \<noteq> []"
proof -
  let ?opts = "getopt_scan (\<not> posixly_correct w) args"
  let ?init = "\<lparr>inputFile = [], outputFile = [], password = [], encrypt = False, decrypt = False\<rparr>"
  from assms have q: "\<not> flag_given (CHR ''?'') ?opts" by (simp add: usage_error_def)
  have "\<not> (\<exists>msgs. parse_options ?opts ?init = Inl msgs)"
  proof
    assume "\<exists>msgs. parse_options ?opts ?init = Inl msgs"
    then obtain r where r: "r \<in> set ?opts"
      and "fst r \<notin> {CHR ''e'', CHR ''d'', CHR ''i'', CHR ''o'', CHR ''p''}"
      unfolding parse_options_Inl by blast
    with getopt_chars(1) [OF r] have "fst r = CHR ''?''" by auto
    with r q show False by (auto simp add: flag_given_def list_ex_iff)
  qed
  then obtain f where f: "parse_options ?opts ?init = Inr f"
    by (cases "parse_options ?opts ?init") auto
  with assms show ?thesis
    unfolding usage_error_def using parsed_flags [OF f] by auto
qed

lemma run_stdout:
  assumes "parse_options (getopt_scan (\<not> posixly_correct w) args)
             \<lparr>inputFile = [], outputFile = [], password = [], encrypt = False, decrypt = False\<rparr>
           = Inr f"
    and "encrypt f \<noteq> decrypt f" and "inputFile f \<noteq> []" and "outputFile f \<noteq> []"
    and "password f \<noteq> []"
  shows "out_stdout (main prog args w) = [] \<or>
         hd (out_stdout (main prog args w)) \<in> {CHR ''G'', CHR ''E'', CHR ''O''}"
  unfolding main_parsed [OF assms]
  by (auto simp add: stop_stdout finish_cases iv_line_def decrypt_stdout_def
      split: sum.splits simp del: upt.simps)

lemma usage_stdout: "printUsage prog \<noteq> [] \<and> hd (printUsage prog) = CHR ''U''"
  by (simp add: printUsage_def)

section \<open>Lengths beyond the range of \<open>int\<close>\<close>

lemma cbc_encrypt_first_block:
  assumes "length a = 16" and "length b mod 16 = 0"
  shows "take 16 (cbc_encrypt key iv (a @ b)) = cbc_encrypt key iv a"
proof -
  let ?m = "length b div 16"
  have dv: "length (a @ b) div 16 = 1 + ?m" using assms by simp
  have one: "blocks 16 1 (a @ b) = [a]"
    using blocks_append_left [of 16 1 a b] blocks_one [OF assms(1)] assms(1) by simp
  have split: "blocks 16 (1 + ?m) (a @ b) = [a] @ blocks 16 ?m (drop (16 * 1) (a @ b))"
    unfolding blocks_add one ..
  have l: "length (fst (cbc_encrypt_blocks key iv [a])) = 16" by (simp add: Let_def)
  have a1: "cbc_encrypt key iv a = fst (cbc_encrypt_blocks key iv [a])"
    using assms(1) blocks_one [OF assms(1)] by (simp add: cbc_encrypt_def)
  have "cbc_encrypt key iv (a @ b) =
          fst (cbc_encrypt_blocks key iv [a]) @
          fst (cbc_encrypt_blocks key (snd (cbc_encrypt_blocks key iv [a]))
                 (blocks 16 ?m (drop (16 * 1) (a @ b))))"
    unfolding cbc_encrypt_def dv split cbc_encrypt_blocks_append by (simp only: fst_conv)
  then show ?thesis using l unfolding a1 by simp
qed

lemma int_of_size_wrapped: "int_of_size 4294967312 = 16"
  by (simp add: int_of_size_def)

lemma EVP_DecryptUpdate_one_block:
  assumes "length b1 = 16" and "take 16 body = b1"
  shows "EVP_DecryptUpdate
           \<lparr>ctx_key = key, ctx_iv = iv, ctx_buf = [], ctx_final = [], ctx_final_used = False\<rparr>
           body 16 =
         Inr (\<lparr>ctx_key = key, ctx_iv = snd (cbc_decrypt_blocks key iv [b1]), ctx_buf = [],
               ctx_final = cbc_decrypt key iv b1, ctx_final_used = True\<rparr>, [])"
proof -
  have b: "blocks 16 (Suc 0) b1 = [b1]" using blocks_one [OF assms(1)] by simp
  have c: "cbc_decrypt key iv b1 = fst (cbc_decrypt_blocks key iv [b1])"
    using assms(1) b by (simp add: cbc_decrypt_def)
  have l: "length (fst (cbc_decrypt_blocks key iv [b1])) \<le> 16" by (simp add: Let_def)
  show ?thesis
    unfolding c using assms l b
    by (simp add: EVP_DecryptUpdate_def evp_update_def Let_def del: cbc_decrypt_blocks.simps blocks.simps)
qed

lemma large_bad_container:
  assumes k: "length key = 32" and i: "length iv = 16"
  shows "decryptDataWithIV (iv @ cbc_encrypt key iv (pkcs7_pad [] @ replicate (2 ^ 32) 0)) key = Inr []"
    and "length (cbc_encrypt key iv (pkcs7_pad [] @ replicate (2 ^ 32) 0)) = 16 + 2 ^ 32"
    and "\<not> well_padded
           (drop (length (cbc_encrypt key iv (pkcs7_pad [] @ replicate (2 ^ 32) 0)) - 16)
              (cbc_decrypt key iv (cbc_encrypt key iv (pkcs7_pad [] @ replicate (2 ^ 32) 0))))"
proof -
  let ?pad = "pkcs7_pad [] :: byte list"
  let ?z = "replicate (2 ^ 32) (0 :: byte)"
  let ?body = "cbc_encrypt key iv (?pad @ ?z)"
  let ?b1 = "cbc_encrypt key iv ?pad"
  have lp: "length ?pad = 16" by (simp add: pkcs7_pad_def)
  have lz: "length ?z mod 16 = 0" by simp
  have m16: "length (?pad @ ?z) mod 16 = 0" using lp by simp
  have lb: "length ?body = 16 + 2 ^ 32"
    unfolding length_cbc_encrypt using lp by simp
  show "length ?body = 16 + 2 ^ 32" by (rule lb)
  have t: "take 16 ?body = ?b1" by (rule cbc_encrypt_first_block [OF lp lz])
  have l1: "length ?b1 = 16" unfolding length_cbc_encrypt using lp by simp
  have d1: "cbc_decrypt key iv ?b1 = ?pad"
    by (rule cbc_decrypt_encrypt [OF i]) (simp add: lp)
  let ?ctx1 = "\<lparr>ctx_key = key, ctx_iv = snd (cbc_decrypt_blocks key iv [?b1]), ctx_buf = [],
               ctx_final = ?pad, ctx_final_used = True\<rparr>"
  have n: "int_of_size (length (iv @ ?body) - 16) = 16"
    using i lb by (simp add: int_of_size_wrapped)
  have upd: "EVP_DecryptUpdate
               \<lparr>ctx_key = key, ctx_iv = iv, ctx_buf = [], ctx_final = [], ctx_final_used = False\<rparr>
               ?body (int_of_size (length (iv @ ?body) - 16)) = Inr (?ctx1, [])"
    unfolding n using EVP_DecryptUpdate_one_block [OF l1 t, of key iv] d1 by simp
  have wp: "well_padded ?pad" using well_padded_pad [of "[]"] lp by simp
  have u: "unat (?pad ! 15) = 16" using pad_last_byte [of "[]"] lp by simp
  have fin: "EVP_DecryptFinal_ex ?ctx1 = Inr []"
    using EVP_DecryptFinal_ex_held [of ?ctx1] lp wp u by simp
  have fits: "length ([] :: byte list) + length ([] :: byte list) \<le> length (iv @ ?body) - 16"
    by simp
  have len: "int (length ([] :: byte list)) + int (length ([] :: byte list)) \<le> INT_MAX"
    by (simp add: INT_MAX_def)
  have "decryptDataWithIV (iv @ ?body) key = Inr ([] @ [])"
    by (rule decrypt_steps
          [OF container_unpack_ok [OF i] EVP_CipherInit_ex_ok [OF k i] upd fin fits len])
  then show "decryptDataWithIV (iv @ ?body) key = Inr []" by simp
  have "cbc_decrypt key iv ?body = ?pad @ ?z" by (rule cbc_decrypt_encrypt [OF i m16])
  moreover have "drop (length ?body - 16) (?pad @ ?z) = replicate 16 0"
    unfolding lb using lp by simp
  ultimately show "\<not> well_padded (drop (length ?body - 16) (cbc_decrypt key iv ?body))"
    by (simp add: zero_last_not_well_padded)
qed

section \<open>Encryption, decryption and the container\<close>

lemma bad_padding_run:
  assumes "length pw < 2 ^ 31" and "pw \<noteq> []" and "infile \<noteq> []" and "outfile \<noteq> []"
    and "length iv = 16" and "body \<noteq> []" and "length body mod 16 = 0" and "length body < 2 ^ 31"
    and "files w infile = Some (iv @ body)"
    and "\<not> well_padded (drop (length body - 16)
           (cbc_decrypt (pbkdf2_hmac_sha1 (map of_char pw) (map of_char ''12345678'') 10000 32)
              iv body))"
  shows "main prog [''-d'', ''-i'', infile, ''-o'', outfile, ''-p'', pw] w =
           \<lparr>out_stdout = iv_line ''Extracted IV: '' iv, out_stderr = [Error_queue BAD_DECRYPT],
            out_status = Aborted, out_files = files w\<rparr>"
proof -
  let ?K = "pbkdf2_hmac_sha1 (map of_char pw) (map of_char ''12345678'') 10000 32"
  have b: "decryptDataWithIV (iv @ body) ?K = Inl (Abort BAD_DECRYPT)"
    by (rule bad_padding [OF length_pbkdf2_32 assms(5-8,10)])
  have m: "memory_at w (iv @ body) = iv @ body"
    by (rule memory_at_long) (simp add: assms(5))
  show ?thesis
    using assms(2-5,9) b
    by (subst main_decrypt [where d = "iv @ body", OF _ _ _ assms(1)])
       (simp_all add: m decrypt_stdout_container)
qed

text \<open>
  C1 (the code at a failing input). A plaintext of \<open>2^32\<close> zero bytes: its length reaches
  \<open>EVP_EncryptUpdate\<close> as the \<open>int\<close> 0, so nothing but the padding block is encrypted.
  \<open>encryptDataWithIV\<close> returns the container of the empty plaintext, and decrypting
  that container returns the empty sequence, not the plaintext.
\<close>

theorem large_plaintext_roundtrip_lost:
  "encryptDataWithIV (replicate (2 ^ 32) 0) (replicate 32 7)
       [1, 2, 3, 4, 5, 6, 7, 8, 9, 10, 11, 12, 13, 14, 15, 16] =
     Inr ([1, 2, 3, 4, 5, 6, 7, 8, 9, 10, 11, 12, 13, 14, 15, 16] @
          cbc_encrypt (replicate 32 7) [1, 2, 3, 4, 5, 6, 7, 8, 9, 10, 11, 12, 13, 14, 15, 16]
            (pkcs7_pad [])) \<and>
   decryptDataWithIV
       ([1, 2, 3, 4, 5, 6, 7, 8, 9, 10, 11, 12, 13, 14, 15, 16] @
        cbc_encrypt (replicate 32 7) [1, 2, 3, 4, 5, 6, 7, 8, 9, 10, 11, 12, 13, 14, 15, 16]
          (pkcs7_pad []))
       (replicate 32 7) = Inr [] \<and>
   replicate (2 ^ 32) (0 :: byte) \<noteq> []"
proof -
  let ?K = "replicate 32 (7 :: byte)"
  let ?iv = "[1, 2, 3, 4, 5, 6, 7, 8, 9, 10, 11, 12, 13, 14, 15, 16] :: byte list"
  have k: "length ?K = 32" and i: "length ?iv = 16" by simp_all
  have z: "int_of_size (length (replicate (2 ^ 32) (0 :: byte))) = 0"
    by (simp only: length_replicate int_of_size_2_32)
  have e: "length ([] :: byte list) < 2 ^ 31 - 16" by simp
  have "replicate (2 ^ 32) (0 :: byte) \<noteq> []"
    by (simp only: replicate_empty) simp
  then show ?thesis
    using encrypt_wrapped [OF k i z] roundtrip [OF k i e] by simp
qed

text \<open>
  C3 (the code at a failing input). For the same plaintext of \<open>2^32\<close> bytes the
  ciphertext body has 16 bytes, not \<open>(2^32 div 16 + 1) * 16\<close>.
\<close>

theorem large_plaintext_body_length:
  "encryptDataWithIV (replicate (2 ^ 32) 0) (replicate 32 7)
       [1, 2, 3, 4, 5, 6, 7, 8, 9, 10, 11, 12, 13, 14, 15, 16] =
     Inr ([1, 2, 3, 4, 5, 6, 7, 8, 9, 10, 11, 12, 13, 14, 15, 16] @
          cbc_encrypt (replicate 32 7) [1, 2, 3, 4, 5, 6, 7, 8, 9, 10, 11, 12, 13, 14, 15, 16]
            (pkcs7_pad [])) \<and>
   length (cbc_encrypt (replicate 32 7) [1, 2, 3, 4, 5, 6, 7, 8, 9, 10, 11, 12, 13, 14, 15, 16]
            (pkcs7_pad [])) = 16 \<and>
   (length (replicate (2 ^ 32) (0 :: byte)) div 16 + 1) * 16 \<noteq> 16"
proof -
  let ?K = "replicate 32 (7 :: byte)"
  let ?iv = "[1, 2, 3, 4, 5, 6, 7, 8, 9, 10, 11, 12, 13, 14, 15, 16] :: byte list"
  have k: "length ?K = 32" and i: "length ?iv = 16" by simp_all
  have z: "int_of_size (length (replicate (2 ^ 32) (0 :: byte))) = 0"
    by (simp only: length_replicate int_of_size_2_32)
  have "length (cbc_encrypt ?K ?iv (pkcs7_pad [])) = 16"
    by (simp only: length_container_body) simp
  moreover have "(length (replicate (2 ^ 32) (0 :: byte)) div 16 + 1) * 16 \<noteq> 16"
    by (simp only: length_replicate) simp
  ultimately show ?thesis using encrypt_wrapped [OF k i z] by simp
qed

text \<open>
  C9. Two encryptions that return, under different 16-byte IVs, return different
  containers, whatever the plaintext and the key; and for every plaintext of fewer than
  \<open>2^31 - 16\<close> bytes and every 32-byte key both encryptions do return.
\<close>

theorem distinct_iv_distinct_container:
  assumes "length iv1 = 16" and "length iv2 = 16" and "iv1 \<noteq> iv2"
  shows "(encryptDataWithIV P K iv1 = Inr c1 \<and> encryptDataWithIV P K iv2 = Inr c2 \<longrightarrow> c1 \<noteq> c2) \<and>
         (length K = 32 \<and> length P < 2 ^ 31 - 16 \<longrightarrow>
            encryptDataWithIV P K iv1 = Inr (iv1 @ cbc_encrypt K iv1 (pkcs7_pad P)) \<and>
            encryptDataWithIV P K iv2 = Inr (iv2 @ cbc_encrypt K iv2 (pkcs7_pad P)) \<and>
            iv1 @ cbc_encrypt K iv1 (pkcs7_pad P) \<noteq> iv2 @ cbc_encrypt K iv2 (pkcs7_pad P))"
proof (intro conjI impI)
  assume "encryptDataWithIV P K iv1 = Inr c1 \<and> encryptDataWithIV P K iv2 = Inr c2"
  then have "take 16 c1 = iv1" and "take 16 c2 = iv2"
    using assms(1,2) by (auto dest: encrypt_result_prefix)
  with assms(3) show "c1 \<noteq> c2" by auto
next
  assume a: "length K = 32 \<and> length P < 2 ^ 31 - 16"
  then show "encryptDataWithIV P K iv1 = Inr (iv1 @ cbc_encrypt K iv1 (pkcs7_pad P))"
    using assms(1) by (simp add: encrypt_summary)
  from a show "encryptDataWithIV P K iv2 = Inr (iv2 @ cbc_encrypt K iv2 (pkcs7_pad P))"
    using assms(2) by (simp add: encrypt_summary)
  show "iv1 @ cbc_encrypt K iv1 (pkcs7_pad P) \<noteq> iv2 @ cbc_encrypt K iv2 (pkcs7_pad P)"
    using assms by simp
qed

theorem distinct_iv_distinct_container_witness:
  "length [1, 2, 3, 4, 5, 6, 7, 8, 9, 10, 11, 12, 13, 14, 15, 16 :: byte] = 16 \<and>
   length [16, 15, 14, 13, 12, 11, 10, 9, 8, 7, 6, 5, 4, 3, 2, 1 :: byte] = 16 \<and>
   [1, 2, 3, 4, 5, 6, 7, 8, 9, 10, 11, 12, 13, 14, 15, 16 :: byte]
     \<noteq> [16, 15, 14, 13, 12, 11, 10, 9, 8, 7, 6, 5, 4, 3, 2, 1] \<and>
   length (replicate 32 (7 :: byte)) = 32 \<and>
   length (map of_char ''Hello World'' :: byte list) < 2 ^ 31 - 16 \<and>
   encryptDataWithIV (map of_char ''Hello World'') (replicate 32 7)
       [1, 2, 3, 4, 5, 6, 7, 8, 9, 10, 11, 12, 13, 14, 15, 16] =
     Inr ([1, 2, 3, 4, 5, 6, 7, 8, 9, 10, 11, 12, 13, 14, 15, 16] @
          cbc_encrypt (replicate 32 7) [1, 2, 3, 4, 5, 6, 7, 8, 9, 10, 11, 12, 13, 14, 15, 16]
            (pkcs7_pad (map of_char ''Hello World''))) \<and>
   encryptDataWithIV (map of_char ''Hello World'') (replicate 32 7)
       [16, 15, 14, 13, 12, 11, 10, 9, 8, 7, 6, 5, 4, 3, 2, 1] =
     Inr ([16, 15, 14, 13, 12, 11, 10, 9, 8, 7, 6, 5, 4, 3, 2, 1] @
          cbc_encrypt (replicate 32 7) [16, 15, 14, 13, 12, 11, 10, 9, 8, 7, 6, 5, 4, 3, 2, 1]
            (pkcs7_pad (map of_char ''Hello World''))) \<and>
   [1, 2, 3, 4, 5, 6, 7, 8, 9, 10, 11, 12, 13, 14, 15, 16] @
     cbc_encrypt (replicate 32 7) [1, 2, 3, 4, 5, 6, 7, 8, 9, 10, 11, 12, 13, 14, 15, 16]
       (pkcs7_pad (map of_char ''Hello World''))
   \<noteq> [16, 15, 14, 13, 12, 11, 10, 9, 8, 7, 6, 5, 4, 3, 2, 1] @
     cbc_encrypt (replicate 32 7) [16, 15, 14, 13, 12, 11, 10, 9, 8, 7, 6, 5, 4, 3, 2, 1]
       (pkcs7_pad (map of_char ''Hello World''))"
proof -
  let ?iv1 = "[1, 2, 3, 4, 5, 6, 7, 8, 9, 10, 11, 12, 13, 14, 15, 16 :: byte]"
  let ?iv2 = "[16, 15, 14, 13, 12, 11, 10, 9, 8, 7, 6, 5, 4, 3, 2, 1 :: byte]"
  let ?P = "map of_char ''Hello World'' :: byte list"
  let ?K = "replicate 32 (7 :: byte)"
  have h: "length ?iv1 = 16" "length ?iv2 = 16" "?iv1 \<noteq> ?iv2" by simp_all
  have g: "length ?K = 32" "length ?P < 2 ^ 31 - 16" by simp_all
  from distinct_iv_distinct_container [OF h, of ?P ?K] g
  have "encryptDataWithIV ?P ?K ?iv1 = Inr (?iv1 @ cbc_encrypt ?K ?iv1 (pkcs7_pad ?P)) \<and>
        encryptDataWithIV ?P ?K ?iv2 = Inr (?iv2 @ cbc_encrypt ?K ?iv2 (pkcs7_pad ?P)) \<and>
        ?iv1 @ cbc_encrypt ?K ?iv1 (pkcs7_pad ?P) \<noteq> ?iv2 @ cbc_encrypt ?K ?iv2 (pkcs7_pad ?P)"
    by blast
  with h g show ?thesis by blast
qed

text \<open>
  C10. Encrypting the empty plaintext returns a container of 32 bytes, the IV and one
  block, and decrypting that container returns the empty sequence.
\<close>

theorem empty_plaintext:
  assumes "length K = 32" and "length iv = 16"
  shows "encryptDataWithIV [] K iv = Inr (iv @ cbc_encrypt K iv (pkcs7_pad [])) \<and>
         length (iv @ cbc_encrypt K iv (pkcs7_pad [])) = 32 \<and>
         decryptDataWithIV (iv @ cbc_encrypt K iv (pkcs7_pad [])) K = Inr []"
proof -
  have e: "length ([] :: byte list) < 2 ^ 31 - 16" by simp
  have "length (cbc_encrypt K iv (pkcs7_pad [])) = 16"
    by (simp only: length_container_body) simp
  then show ?thesis
    using encrypt_summary [OF assms e] roundtrip [OF assms e] assms(2) by simp
qed

theorem empty_plaintext_witness:
  "length (replicate 32 (7 :: byte)) = 32 \<and>
   length [1, 2, 3, 4, 5, 6, 7, 8, 9, 10, 11, 12, 13, 14, 15, 16 :: byte] = 16 \<and>
   encryptDataWithIV [] (replicate 32 7) [1, 2, 3, 4, 5, 6, 7, 8, 9, 10, 11, 12, 13, 14, 15, 16] =
     Inr ([1, 2, 3, 4, 5, 6, 7, 8, 9, 10, 11, 12, 13, 14, 15, 16] @
          cbc_encrypt (replicate 32 7) [1, 2, 3, 4, 5, 6, 7, 8, 9, 10, 11, 12, 13, 14, 15, 16]
            (pkcs7_pad [])) \<and>
   length ([1, 2, 3, 4, 5, 6, 7, 8, 9, 10, 11, 12, 13, 14, 15, 16] @
           cbc_encrypt (replicate 32 7) [1, 2, 3, 4, 5, 6, 7, 8, 9, 10, 11, 12, 13, 14, 15, 16]
             (pkcs7_pad [])) = 32 \<and>
   decryptDataWithIV
     ([1, 2, 3, 4, 5, 6, 7, 8, 9, 10, 11, 12, 13, 14, 15, 16] @
      cbc_encrypt (replicate 32 7) [1, 2, 3, 4, 5, 6, 7, 8, 9, 10, 11, 12, 13, 14, 15, 16]
        (pkcs7_pad []))
     (replicate 32 7) = Inr []"
  using empty_plaintext [of "replicate 32 7" "[1, 2, 3, 4, 5, 6, 7, 8, 9, 10, 11, 12, 13, 14, 15, 16]"]
  by simp


text \<open>
  C2 (the code at a failing input). \<open>decryptDataWithIV\<close> has no check of the length: on
  a 10-byte input it copies 16 bytes from it, which reads past its end. The run of the
  program on a 10-byte file ends there, without any error of its own.
\<close>

theorem short_input_reads_out_of_range:
  "decryptDataWithIV [1, 2, 3, 4, 5, 6, 7, 8, 9, 10] (replicate 32 7) = Inl OutOfRange \<and>
   out_status
     (main ''prog'' [''-d'', ''-i'', ''in'', ''-o'', ''out'', ''-p'', ''secret'']
        \<lparr>files = [''in'' \<mapsto> [1, 2, 3, 4, 5, 6, 7, 8, 9, 10]], can_write = (\<lambda>f. True),
         rand_ret = 1, rand_out = (\<lambda>i. 0), posixly_correct = False,
         past_end = (\<lambda>i. 0)\<rparr>) = Undefined"
proof -
  let ?d = "[1, 2, 3, 4, 5, 6, 7, 8, 9, 10 :: byte]"
  let ?w = "\<lparr>files = [''in'' \<mapsto> ?d], can_write = (\<lambda>f. True),
         rand_ret = 1, rand_out = (\<lambda>i. 0), posixly_correct = False,
         past_end = (\<lambda>i. 0)\<rparr>"
  have s: "decryptDataWithIV ?d key = Inl OutOfRange" for key
    by (rule short_container) simp
  have "main ''prog'' [''-d'', ''-i'', ''in'', ''-o'', ''out'', ''-p'', ''secret''] ?w
          = stop ?w (decrypt_stdout (memory_at ?w ?d)) OutOfRange"
    by (subst main_decrypt [where d = ?d]) (simp_all add: s)
  then show ?thesis using s by simp
qed


text \<open>
  C5. With a 16-byte IV, the container is the IV followed by the ciphertext, and taking
  it apart returns both; the first 16 bytes of what \<open>encryptDataWithIV\<close> returns are
  the IV it was given; \<open>decryptDataWithIV\<close> prints the first 16 bytes of its input as
  the IV, and what it returns is a prefix of the CBC decryption, chained from those 16
  bytes, of the rest of its input.
\<close>

theorem container_layout:
  assumes "length iv = 16"
  shows "container_pack iv ct = Inr (iv @ ct) \<and>
         container_unpack (iv @ ct) = Inr (iv, ct) \<and>
         (encryptDataWithIV P K iv = Inr c \<longrightarrow> take 16 c = iv) \<and>
         decrypt_stdout (iv @ ct) = iv_line ''Extracted IV: '' iv \<and>
         (length K = 32 \<and> length ct < 2 ^ 31 \<and> decryptDataWithIV (iv @ ct) K = Inr p \<longrightarrow>
            p = take (length p) (cbc_decrypt K iv ct))"
  using assms
  by (auto simp add: container_pack_ok container_unpack_ok decrypt_stdout_container
      dest: encrypt_result_prefix decrypt_result_prefix)

theorem container_layout_witness:
  "length [1, 2, 3, 4, 5, 6, 7, 8, 9, 10, 11, 12, 13, 14, 15, 16 :: byte] = 16 \<and>
   encryptDataWithIV (map of_char ''Hello World'') (replicate 32 7)
       [1, 2, 3, 4, 5, 6, 7, 8, 9, 10, 11, 12, 13, 14, 15, 16] =
     Inr ([1, 2, 3, 4, 5, 6, 7, 8, 9, 10, 11, 12, 13, 14, 15, 16] @
          cbc_encrypt (replicate 32 7) [1, 2, 3, 4, 5, 6, 7, 8, 9, 10, 11, 12, 13, 14, 15, 16]
            (pkcs7_pad (map of_char ''Hello World''))) \<and>
   length (replicate 32 (7 :: byte)) = 32 \<and>
   length (cbc_encrypt (replicate 32 7) [1, 2, 3, 4, 5, 6, 7, 8, 9, 10, 11, 12, 13, 14, 15, 16]
            (pkcs7_pad (map of_char ''Hello World''))) < 2 ^ 31 \<and>
   decryptDataWithIV
       ([1, 2, 3, 4, 5, 6, 7, 8, 9, 10, 11, 12, 13, 14, 15, 16] @
        cbc_encrypt (replicate 32 7) [1, 2, 3, 4, 5, 6, 7, 8, 9, 10, 11, 12, 13, 14, 15, 16]
          (pkcs7_pad (map of_char ''Hello World'')))
       (replicate 32 7) = Inr (map of_char ''Hello World'') \<and>
   container_unpack
       ([1, 2, 3, 4, 5, 6, 7, 8, 9, 10, 11, 12, 13, 14, 15, 16] @
        cbc_encrypt (replicate 32 7) [1, 2, 3, 4, 5, 6, 7, 8, 9, 10, 11, 12, 13, 14, 15, 16]
          (pkcs7_pad (map of_char ''Hello World''))) =
     Inr ([1, 2, 3, 4, 5, 6, 7, 8, 9, 10, 11, 12, 13, 14, 15, 16],
          cbc_encrypt (replicate 32 7) [1, 2, 3, 4, 5, 6, 7, 8, 9, 10, 11, 12, 13, 14, 15, 16]
            (pkcs7_pad (map of_char ''Hello World''))) \<and>
   map of_char ''Hello World'' =
     take (length (map of_char ''Hello World'' :: byte list))
       (cbc_decrypt (replicate 32 7) [1, 2, 3, 4, 5, 6, 7, 8, 9, 10, 11, 12, 13, 14, 15, 16]
          (cbc_encrypt (replicate 32 7) [1, 2, 3, 4, 5, 6, 7, 8, 9, 10, 11, 12, 13, 14, 15, 16]
             (pkcs7_pad (map of_char ''Hello World''))))"
proof -
  let ?iv = "[1, 2, 3, 4, 5, 6, 7, 8, 9, 10, 11, 12, 13, 14, 15, 16 :: byte]"
  let ?K = "replicate 32 (7 :: byte)"
  let ?P = "map of_char ''Hello World'' :: byte list"
  let ?ct = "cbc_encrypt ?K ?iv (pkcs7_pad ?P)"
  have i: "length ?iv = 16" and k: "length ?K = 32" and n: "length ?P < 2 ^ 31 - 16"
    by simp_all
  have e: "encryptDataWithIV ?P ?K ?iv = Inr (?iv @ ?ct)" by (rule encrypt_summary [OF k i n])
  have d: "decryptDataWithIV (?iv @ ?ct) ?K = Inr ?P" by (rule roundtrip [OF k i n])
  have l: "length ?ct < 2 ^ 31" by (simp only: length_container_body) simp
  from container_layout [OF i, of ?ct ?P ?K "?iv @ ?ct" ?P] k l d
  have "container_unpack (?iv @ ?ct) = Inr (?iv, ?ct)"
    and "?P = take (length ?P) (cbc_decrypt ?K ?iv ?ct)"
    by blast+
  with i e k l d show ?thesis by blast
qed


text \<open>
  C6 (the code at a failing input). A container whose body has \<open>2^32 + 16\<close> bytes: the
  length of the body reaches \<open>EVP_DecryptUpdate\<close> as the \<open>int\<close> 16, so only its first
  block is decrypted. That block is well padded, the last block of the body is not:
  \<open>decryptDataWithIV\<close> returns the empty sequence as the plaintext, and the run of the
  program on such a file ends with status 0 and nothing on the error stream.
\<close>

theorem large_container_bad_padding_accepted:
  "decryptDataWithIV ([1, 2, 3, 4, 5, 6, 7, 8, 9, 10, 11, 12, 13, 14, 15, 16] @
      (cbc_encrypt (pbkdf2_hmac_sha1 (map of_char ''secret'') (map of_char ''12345678'') 10000 32)
      [1, 2, 3, 4, 5, 6, 7, 8, 9, 10, 11, 12, 13, 14, 15, 16]
      (pkcs7_pad [] @ replicate (2 ^ 32) 0)))
     (pbkdf2_hmac_sha1 (map of_char ''secret'') (map of_char ''12345678'') 10000 32) = Inr [] \<and>
   length (cbc_encrypt (pbkdf2_hmac_sha1 (map of_char ''secret'') (map of_char ''12345678'') 10000 32)
      [1, 2, 3, 4, 5, 6, 7, 8, 9, 10, 11, 12, 13, 14, 15, 16]
      (pkcs7_pad [] @ replicate (2 ^ 32) 0)) = 16 + 2 ^ 32 \<and>
   \<not> well_padded
      (drop (length (cbc_encrypt (pbkdf2_hmac_sha1 (map of_char ''secret'') (map of_char ''12345678'') 10000 32)
      [1, 2, 3, 4, 5, 6, 7, 8, 9, 10, 11, 12, 13, 14, 15, 16]
      (pkcs7_pad [] @ replicate (2 ^ 32) 0)) - 16)
         (cbc_decrypt (pbkdf2_hmac_sha1 (map of_char ''secret'') (map of_char ''12345678'') 10000 32)
            [1, 2, 3, 4, 5, 6, 7, 8, 9, 10, 11, 12, 13, 14, 15, 16]
            (cbc_encrypt (pbkdf2_hmac_sha1 (map of_char ''secret'') (map of_char ''12345678'') 10000 32)
      [1, 2, 3, 4, 5, 6, 7, 8, 9, 10, 11, 12, 13, 14, 15, 16]
      (pkcs7_pad [] @ replicate (2 ^ 32) 0)))) \<and>
   out_status (main ''prog'' [''-d'', ''-i'', ''in'', ''-o'', ''out'', ''-p'', ''secret'']
     \<lparr>files = map_of [(''in'', [1, 2, 3, 4, 5, 6, 7, 8, 9, 10, 11, 12, 13, 14, 15, 16] @
      (cbc_encrypt (pbkdf2_hmac_sha1 (map of_char ''secret'') (map of_char ''12345678'') 10000 32)
      [1, 2, 3, 4, 5, 6, 7, 8, 9, 10, 11, 12, 13, 14, 15, 16]
      (pkcs7_pad [] @ replicate (2 ^ 32) 0)))],
      can_write = (=) ''out'', rand_ret = 1, rand_out = word_of_nat, posixly_correct = False,
      past_end = word_of_nat\<rparr>) = Exited 0 \<and>
   out_stderr (main ''prog'' [''-d'', ''-i'', ''in'', ''-o'', ''out'', ''-p'', ''secret'']
     \<lparr>files = map_of [(''in'', [1, 2, 3, 4, 5, 6, 7, 8, 9, 10, 11, 12, 13, 14, 15, 16] @
      (cbc_encrypt (pbkdf2_hmac_sha1 (map of_char ''secret'') (map of_char ''12345678'') 10000 32)
      [1, 2, 3, 4, 5, 6, 7, 8, 9, 10, 11, 12, 13, 14, 15, 16]
      (pkcs7_pad [] @ replicate (2 ^ 32) 0)))],
      can_write = (=) ''out'', rand_ret = 1, rand_out = word_of_nat, posixly_correct = False,
      past_end = word_of_nat\<rparr>) = [] \<and>
   out_files (main ''prog'' [''-d'', ''-i'', ''in'', ''-o'', ''out'', ''-p'', ''secret'']
     \<lparr>files = map_of [(''in'', [1, 2, 3, 4, 5, 6, 7, 8, 9, 10, 11, 12, 13, 14, 15, 16] @
      (cbc_encrypt (pbkdf2_hmac_sha1 (map of_char ''secret'') (map of_char ''12345678'') 10000 32)
      [1, 2, 3, 4, 5, 6, 7, 8, 9, 10, 11, 12, 13, 14, 15, 16]
      (pkcs7_pad [] @ replicate (2 ^ 32) 0)))],
      can_write = (=) ''out'', rand_ret = 1, rand_out = word_of_nat, posixly_correct = False,
      past_end = word_of_nat\<rparr>) ''out'' = Some []"
proof -
  let ?K = "(pbkdf2_hmac_sha1 (map of_char ''secret'') (map of_char ''12345678'') 10000 32)"
  let ?iv = "[1, 2, 3, 4, 5, 6, 7, 8, 9, 10, 11, 12, 13, 14, 15, 16] :: byte list"
  let ?body = "cbc_encrypt ?K ?iv (pkcs7_pad [] @ replicate (2 ^ 32) 0)"
  let ?w = "\<lparr>files = map_of [(''in'', [1, 2, 3, 4, 5, 6, 7, 8, 9, 10, 11, 12, 13, 14, 15, 16] @
      (cbc_encrypt (pbkdf2_hmac_sha1 (map of_char ''secret'') (map of_char ''12345678'') 10000 32)
      [1, 2, 3, 4, 5, 6, 7, 8, 9, 10, 11, 12, 13, 14, 15, 16]
      (pkcs7_pad [] @ replicate (2 ^ 32) 0)))],
      can_write = (=) ''out'', rand_ret = 1, rand_out = word_of_nat, posixly_correct = False,
      past_end = word_of_nat\<rparr>"
  have k: "length ?K = 32" by (rule length_pbkdf2_32)
  have i: "length ?iv = 16" by simp
  note l = large_bad_container [OF k i]
  have m: "main ''prog'' [''-d'', ''-i'', ''in'', ''-o'', ''out'', ''-p'', ''secret''] ?w =
             finish ?w (decrypt_stdout (memory_at ?w (?iv @ ?body)))
               \<lparr>inputFile = ''in'', outputFile = ''out'', password = ''secret'',
                encrypt = False, decrypt = True\<rparr> []"
  proof -
    have "main ''prog'' [''-d'', ''-i'', ''in'', ''-o'', ''out'', ''-p'', ''secret''] ?w =
            (case decryptDataWithIV (?iv @ ?body) ?K of
               Inl e \<Rightarrow> stop ?w (decrypt_stdout (memory_at ?w (?iv @ ?body))) e
             | Inr r \<Rightarrow> finish ?w (decrypt_stdout (memory_at ?w (?iv @ ?body)))
                 \<lparr>inputFile = ''in'', outputFile = ''out'', password = ''secret'',
                  encrypt = False, decrypt = True\<rparr> r)"
      by (rule main_decrypt) simp_all
    then show ?thesis unfolding l(1) by (simp only: sum.case)
  qed
  have s: "out_status (main ''prog'' [''-d'', ''-i'', ''in'', ''-o'', ''out'', ''-p'', ''secret''] ?w)
             = Exited 0"
    and e: "out_stderr (main ''prog'' [''-d'', ''-i'', ''in'', ''-o'', ''out'', ''-p'', ''secret''] ?w)
             = []"
    and f: "out_files (main ''prog'' [''-d'', ''-i'', ''in'', ''-o'', ''out'', ''-p'', ''secret''] ?w)
             ''out'' = Some []"
    unfolding m by (simp_all add: finish_cases)
  show ?thesis by (intro conjI) (rule l s e f)+
qed

section \<open>The command line and the output file\<close>

lemma main_encrypt_ok:
  assumes p: "parse_options (getopt_scan (\<not> posixly_correct w) args) 
      \<lparr>inputFile = [], outputFile = [], password = [], encrypt = False, decrypt = False\<rparr> = Inr f"
    and e: "encrypt f" "\<not> decrypt f" and n: "inputFile f \<noteq> []" "outputFile f \<noteq> []" "password f \<noteq> []"
    and l: "length (password f) < 2 ^ 31"
    and d: "files w (inputFile f) = Some d" "length d < 2 ^ 31 - 16"
    and r: "rand_ret w \<noteq> 0" and c: "can_write w (outputFile f)"
  shows "out_status (main prog args w) = Exited 0 \<and>
         out_files (main prog args w) =
           (files w)(outputFile f \<mapsto>
              map (rand_out w) [0..<16] @
              cbc_encrypt (pbkdf2_hmac_sha1 (map of_char (password f)) (map of_char ''12345678'') 10000 32)
                (map (rand_out w) [0..<16]) (pkcs7_pad d))"
proof -
  let ?key = "pbkdf2_hmac_sha1 (map of_char (password f)) (map of_char ''12345678'') 10000 32"
  let ?iv = "map (rand_out w) [0..<16]"
  have ed: "encrypt f \<noteq> decrypt f" using e by simp
  have i: "length ?iv = 16" by simp
  have enc: "encryptDataWithIV d ?key ?iv = Inr (?iv @ cbc_encrypt ?key ?iv (pkcs7_pad d))"
    by (rule encrypt_summary [OF length_pbkdf2_32 i d(2)])
  show ?thesis
    unfolding main_parsed [OF p ed n] generateKeyFromPassword_ok [OF l]
    using e r c d(1) enc
    by (simp add: readFile_def finish_cases del: upt.simps)
qed

text \<open>
  C7 (as amended). The program prints the usage text to standard output and exits with
  status 1, leaving the files alone, whenever \<open>getopt\<close> reports an unknown option or an
  option without its argument, \<open>-e\<close> and \<open>-d\<close> are both given or both missing, or one
  of \<open>-i\<close>, \<open>-o\<close>, \<open>-p\<close> is missing or has an empty value, the last value given
  counting; in every other case, a repeated flag included, it does not print the usage
  text.
\<close>

theorem usage_on_bad_arguments:
  "(usage_error (getopt_scan (\<not> posixly_correct w) args) \<longrightarrow>
      out_stdout (main prog args w) = printUsage prog \<and>
      out_status (main prog args w) = Exited 1 \<and>
      out_files (main prog args w) = files w) \<and>
   (\<not> usage_error (getopt_scan (\<not> posixly_correct w) args) \<longrightarrow>
      out_stdout (main prog args w) \<noteq> printUsage prog)"
proof (intro conjI impI)
  assume "usage_error (getopt_scan (\<not> posixly_correct w) args)"
  then obtain msgs where m: "main prog args w = usage_exit w prog msgs"
    using usage_error_main by blast
  show "out_stdout (main prog args w) = printUsage prog"
    and "out_status (main prog args w) = Exited 1"
    and "out_files (main prog args w) = files w"
    unfolding m by (simp_all add: usage_exit_def)
next
  assume "\<not> usage_error (getopt_scan (\<not> posixly_correct w) args)"
  then obtain f where "parse_options (getopt_scan (\<not> posixly_correct w) args)
      \<lparr>inputFile = [], outputFile = [], password = [], encrypt = False, decrypt = False\<rparr> = Inr f"
    and "encrypt f \<noteq> decrypt f" and "inputFile f \<noteq> []" and "outputFile f \<noteq> []"
    and "password f \<noteq> []"
    using no_usage_error_parsed by blast
  then have "out_stdout (main prog args w) = [] \<or>
         hd (out_stdout (main prog args w)) \<in> {CHR ''G'', CHR ''E'', CHR ''O''}"
    by (rule run_stdout)
  then show "out_stdout (main prog args w) \<noteq> printUsage prog"
    using usage_stdout [of prog] by auto
qed

theorem usage_on_bad_arguments_witness:
  "usage_error (getopt_scan (\<not> posixly_correct \<lparr>files = map_of [(''in'', map of_char ''Hello World'')], can_write = (=) ''out'',
      rand_ret = 1, rand_out = word_of_nat, posixly_correct = False,
      past_end = word_of_nat\<rparr>) [''-e'', ''-d'', ''-i'', ''in'', ''-o'', ''out'', ''-p'', ''secret'']) \<and>
   out_stdout (main ''prog'' [''-e'', ''-d'', ''-i'', ''in'', ''-o'', ''out'', ''-p'', ''secret''] \<lparr>files = map_of [(''in'', map of_char ''Hello World'')], can_write = (=) ''out'',
      rand_ret = 1, rand_out = word_of_nat, posixly_correct = False,
      past_end = word_of_nat\<rparr>) = printUsage ''prog'' \<and>
   out_status (main ''prog'' [''-e'', ''-d'', ''-i'', ''in'', ''-o'', ''out'', ''-p'', ''secret''] \<lparr>files = map_of [(''in'', map of_char ''Hello World'')], can_write = (=) ''out'',
      rand_ret = 1, rand_out = word_of_nat, posixly_correct = False,
      past_end = word_of_nat\<rparr>) = Exited 1 \<and>
   out_files (main ''prog'' [''-e'', ''-d'', ''-i'', ''in'', ''-o'', ''out'', ''-p'', ''secret''] \<lparr>files = map_of [(''in'', map of_char ''Hello World'')], can_write = (=) ''out'',
      rand_ret = 1, rand_out = word_of_nat, posixly_correct = False,
      past_end = word_of_nat\<rparr>) = files \<lparr>files = map_of [(''in'', map of_char ''Hello World'')], can_write = (=) ''out'',
      rand_ret = 1, rand_out = word_of_nat, posixly_correct = False,
      past_end = word_of_nat\<rparr> \<and>
   \<not> usage_error (getopt_scan (\<not> posixly_correct \<lparr>files = map_of [(''in'', map of_char ''Hello World'')], can_write = (=) ''out'',
      rand_ret = 1, rand_out = word_of_nat, posixly_correct = False,
      past_end = word_of_nat\<rparr>) [''-e'', ''-i'', ''in'', ''-o'', ''out'', ''-p'', ''secret'']) \<and>
   out_stdout (main ''prog'' [''-e'', ''-i'', ''in'', ''-o'', ''out'', ''-p'', ''secret''] \<lparr>files = map_of [(''in'', map of_char ''Hello World'')], can_write = (=) ''out'',
      rand_ret = 1, rand_out = word_of_nat, posixly_correct = False,
      past_end = word_of_nat\<rparr>) \<noteq> printUsage ''prog''"
proof -
  let ?w = "\<lparr>files = map_of [(''in'', map of_char ''Hello World'')], can_write = (=) ''out'',
      rand_ret = 1, rand_out = word_of_nat, posixly_correct = False,
      past_end = word_of_nat\<rparr>"
  have a: "usage_error (getopt_scan (\<not> posixly_correct ?w) [''-e'', ''-d'', ''-i'', ''in'', ''-o'', ''out'', ''-p'', ''secret''])"
    by (simp add: usage_error_def flag_given_def option_value_def)
  have b: "\<not> usage_error (getopt_scan (\<not> posixly_correct ?w) [''-e'', ''-i'', ''in'', ''-o'', ''out'', ''-p'', ''secret''])"
    by (simp add: usage_error_def flag_given_def option_value_def)
  note ta = usage_on_bad_arguments [of ?w "[''-e'', ''-d'', ''-i'', ''in'', ''-o'', ''out'', ''-p'', ''secret'']" "''prog''", THEN conjunct1, THEN mp, OF a]
  note ta1 = ta [THEN conjunct1] and ta2 = ta [THEN conjunct2, THEN conjunct1]
    and ta3 = ta [THEN conjunct2, THEN conjunct2]
  note tb = usage_on_bad_arguments [of ?w "[''-e'', ''-i'', ''in'', ''-o'', ''out'', ''-p'', ''secret'']" "''prog''", THEN conjunct2, THEN mp, OF b]
  show ?thesis by (intro conjI) (rule a b ta1 ta2 ta3 tb)+
qed

text \<open>
  C7 as stated fails for repeated flags: with \<open>-e\<close> given twice and \<open>-i\<close> given twice
  the program encrypts the file named last and exits with status 0.
\<close>

theorem duplicate_flags_counterexample:
  "out_status (main ''prog'' [''-e'', ''-e'', ''-i'', ''other'', ''-i'', ''in'', ''-o'', ''out'', ''-p'', ''secret''] \<lparr>files = map_of [(''in'', map of_char ''Hello World'')], can_write = (=) ''out'',
      rand_ret = 1, rand_out = word_of_nat, posixly_correct = False,
      past_end = word_of_nat\<rparr>) = Exited 0 \<and>
   out_stdout (main ''prog'' [''-e'', ''-e'', ''-i'', ''other'', ''-i'', ''in'', ''-o'', ''out'', ''-p'', ''secret''] \<lparr>files = map_of [(''in'', map of_char ''Hello World'')], can_write = (=) ''out'',
      rand_ret = 1, rand_out = word_of_nat, posixly_correct = False,
      past_end = word_of_nat\<rparr>) \<noteq> printUsage ''prog''"
proof -
  let ?w = "\<lparr>files = map_of [(''in'', map of_char ''Hello World'')], can_write = (=) ''out'',
      rand_ret = 1, rand_out = word_of_nat, posixly_correct = False,
      past_end = word_of_nat\<rparr>"
  let ?f = "\<lparr>inputFile = ''in'', outputFile = ''out'', password = ''secret'',
             encrypt = True, decrypt = False\<rparr>"
  have p: "parse_options (getopt_scan (\<not> posixly_correct ?w) [''-e'', ''-e'', ''-i'', ''other'', ''-i'', ''in'', ''-o'', ''out'', ''-p'', ''secret'']) 
      \<lparr>inputFile = [], outputFile = [], password = [], encrypt = False, decrypt = False\<rparr> = Inr ?f"
    by simp
  have "out_status (main ''prog'' [''-e'', ''-e'', ''-i'', ''other'', ''-i'', ''in'', ''-o'', ''out'', ''-p'', ''secret''] ?w) = Exited 0"
    by (rule main_encrypt_ok [OF p, where d = "map of_char ''Hello World''", THEN conjunct1])
       simp_all
  moreover have "out_stdout (main ''prog'' [''-e'', ''-e'', ''-i'', ''other'', ''-i'', ''in'', ''-o'', ''out'', ''-p'', ''secret''] ?w) = [] \<or>
      hd (out_stdout (main ''prog'' [''-e'', ''-e'', ''-i'', ''other'', ''-i'', ''in'', ''-o'', ''out'', ''-p'', ''secret''] ?w)) \<in> {CHR ''G'', CHR ''E'', CHR ''O''}"
    by (rule run_stdout [OF p]) simp_all
  then have "out_stdout (main ''prog'' [''-e'', ''-e'', ''-i'', ''other'', ''-i'', ''in'', ''-o'', ''out'', ''-p'', ''secret''] ?w) \<noteq> printUsage ''prog''"
    using usage_stdout [of "''prog''"] by auto
  ultimately show ?thesis by simp
qed



section \<open>Key derivation: a password longer than the HMAC block\<close>

lemma replicate_numeral: "replicate (numeral k) x = x # replicate (pred_numeral k) x"
  by (simp add: numeral_eq_Suc)

lemma blocks_numeral:
  "blocks bl (numeral k) d = take bl d # blocks bl (pred_numeral k) (drop bl d)"
  by (simp add: numeral_eq_Suc)

lemma upt_split: "i \<le> j \<Longrightarrow> j \<le> k \<Longrightarrow> [i..<k] = [i..<j] @ [j..<k]"
  by (metis le_Suc_ex upt_add_eq_append)

lemma rounds_split:
  "fold f [0..<80] x =
     fold f [60..<80] (fold f [40..<60] (fold f [20..<40] (fold f [0..<20] x)))"
proof -
  have a: "[0..<80::nat] = [0..<20] @ [20..<80]" by (rule upt_split) simp_all
  have b: "[20..<80::nat] = [20..<40] @ [40..<80]" by (rule upt_split) simp_all
  have c: "[40..<80::nat] = [40..<60] @ [60..<80]" by (rule upt_split) simp_all
  show ?thesis unfolding a b c fold_append comp_def ..
qed

lemma long_password_pad:
  "sha1_pad [112, 108, 110, 108, 114, 116, 102, 112, 105, 106, 112, 117, 104, 113, 121, 108, 120, 98, 103, 113, 105, 105, 121, 105, 112, 105, 101, 121, 120, 118, 102, 115, 97, 118, 122, 103, 120, 98, 98, 99, 102, 117, 115, 113, 107, 111, 122, 119, 112, 110, 103, 115, 121, 101, 106, 113, 108, 109, 106, 115, 121, 116, 114, 109, 100] =
     [112, 108, 110, 108, 114, 116, 102, 112, 105, 106, 112, 117, 104, 113, 121, 108, 120, 98, 103, 113, 105, 105, 121, 105, 112, 105, 101, 121, 120, 118, 102, 115, 97, 118, 122, 103, 120, 98, 98, 99, 102, 117, 115, 113, 107, 111, 122, 119, 112, 110, 103, 115, 121, 101, 106, 113, 108, 109, 106, 115, 121, 116, 114, 109, 100, 128, 0, 0, 0, 0, 0, 0, 0, 0, 0, 0, 0, 0, 0, 0, 0, 0, 0, 0, 0, 0, 0, 0, 0, 0, 0, 0, 0, 0, 0, 0, 0, 0, 0, 0, 0, 0, 0, 0, 0, 0, 0, 0, 0, 0, 0, 0, 0, 0, 0, 0, 0, 0, 0, 0, 0, 0, 0, 0, 0, 0, 2, 8]"
  by (simp add: sha1_pad_def be64_def replicate_numeral)

lemma long_password_blocks:
  "blocks 64 2
     [112, 108, 110, 108, 114, 116, 102, 112, 105, 106, 112, 117, 104, 113, 121, 108, 120, 98, 103, 113, 105, 105, 121, 105, 112, 105, 101, 121, 120, 118, 102, 115, 97, 118, 122, 103, 120, 98, 98, 99, 102, 117, 115, 113, 107, 111, 122, 119, 112, 110, 103, 115, 121, 101, 106, 113, 108, 109, 106, 115, 121, 116, 114, 109, 100, 128, 0, 0, 0, 0, 0, 0, 0, 0, 0, 0, 0, 0, 0, 0, 0, 0, 0, 0, 0, 0, 0, 0, 0, 0, 0, 0, 0, 0, 0, 0, 0, 0, 0, 0, 0, 0, 0, 0, 0, 0, 0, 0, 0, 0, 0, 0, 0, 0, 0, 0, 0, 0, 0, 0, 0, 0, 0, 0, 0, 0, 2, 8] =
     [[112, 108, 110, 108, 114, 116, 102, 112, 105, 106, 112, 117, 104, 113, 121, 108, 120, 98, 103, 113, 105, 105, 121, 105, 112, 105, 101, 121, 120, 118, 102, 115, 97, 118, 122, 103, 120, 98, 98, 99, 102, 117, 115, 113, 107, 111, 122, 119, 112, 110, 103, 115, 121, 101, 106, 113, 108, 109, 106, 115, 121, 116, 114, 109],
      [100, 128, 0, 0, 0, 0, 0, 0, 0, 0, 0, 0, 0, 0, 0, 0, 0, 0, 0, 0, 0, 0, 0, 0, 0, 0, 0, 0, 0, 0, 0, 0, 0, 0, 0, 0, 0, 0, 0, 0, 0, 0, 0, 0, 0, 0, 0, 0, 0, 0, 0, 0, 0, 0, 0, 0, 0, 0, 0, 0, 0, 0, 2, 8]]"
  by (simp add: blocks_numeral)

lemma long_password_words0:
  "block_words [112, 108, 110, 108, 114, 116, 102, 112, 105, 106, 112, 117, 104, 113, 121, 108, 120, 98, 103, 113, 105, 105, 121, 105, 112, 105, 101, 121, 120, 118, 102, 115, 97, 118, 122, 103, 120, 98, 98, 99, 102, 117, 115, 113, 107, 111, 122, 119, 112, 110, 103, 115, 121, 101, 106, 113, 108, 109, 106, 115, 121, 116, 114, 109] =
     [1886154348, 1920231024, 1768583285, 1752267116, 2019714929, 1768520041, 1885955449, 2021025395, 1635154535, 2019713635, 1718973297, 1802467959, 1886283635, 2036689521, 1819110003, 2037674605]"
  by (simp add: block_words_def word_of_bytes_def upt_conv_Cons)

lemma long_password_rounds0_0:
  "fold sha1_step [0..<20]
     ([1886154348, 1920231024, 1768583285, 1752267116, 2019714929, 1768520041, 1885955449, 2021025395, 1635154535, 2019713635, 1718973297, 1802467959, 1886283635, 2036689521, 1819110003, 2037674605],
      1732584193, 4023233417, 2562383102, 271733878, 3285377520) =
     ([3370292934, 3905991350, 1536258923, 1661321591, 3690155901, 2836433614, 3524915850, 847718214, 4225901072, 1974513728, 245515392, 4212096549, 1626840615, 3594017052, 4224478387, 3560279582],
      867150736, 4072681405, 480080689, 3910035858, 284422528)"
  by (simp add: upt_conv_Cons sha1_f_def sha1_k_def rotl32_def)

lemma long_password_rounds0_20:
  "fold sha1_step [20..<40]
     ([3370292934, 3905991350, 1536258923, 1661321591, 3690155901, 2836433614, 3524915850, 847718214, 4225901072, 1974513728, 245515392, 4212096549, 1626840615, 3594017052, 4224478387, 3560279582],
      867150736, 4072681405, 480080689, 3910035858, 284422528) =
     ([3298622312, 4035457801, 2504743726, 2940060896, 4046901684, 558863966, 3909609134, 2301087334, 4258348868, 923010378, 904366449, 454318013, 487852378, 248685035, 113856215, 4166241047],
      210590507, 2141118605, 4160209936, 2962686518, 3468620339)"
  by (simp add: upt_conv_Cons sha1_f_def sha1_k_def rotl32_def)

lemma long_password_rounds0_40:
  "fold sha1_step [40..<60]
     ([3298622312, 4035457801, 2504743726, 2940060896, 4046901684, 558863966, 3909609134, 2301087334, 4258348868, 923010378, 904366449, 454318013, 487852378, 248685035, 113856215, 4166241047],
      210590507, 2141118605, 4160209936, 2962686518, 3468620339) =
     ([3014167889, 3931295829, 1728499001, 3954252501, 3482859366, 802147917, 564270607, 4152647970, 259262755, 2061719884, 2814852671, 2161066003, 1182860289, 3939168887, 2192348520, 4120283567],
      151625469, 587910177, 2985522114, 3457686250, 1063942279)"
  by (simp add: upt_conv_Cons sha1_f_def sha1_k_def rotl32_def)

lemma long_password_rounds0_60:
  "fold sha1_step [60..<80]
     ([3014167889, 3931295829, 1728499001, 3954252501, 3482859366, 802147917, 564270607, 4152647970, 259262755, 2061719884, 2814852671, 2161066003, 1182860289, 3939168887, 2192348520, 4120283567],
      151625469, 587910177, 2985522114, 3457686250, 1063942279) =
     ([3083227202, 2386529551, 3266748229, 2658124551, 2304481494, 2542081703, 359581005, 1560272553, 3369971481, 135948085, 4253631992, 2700726768, 771499016, 2833987553, 4020223681, 1681613969],
      2918667336, 743481678, 2352616821, 2613628120, 2675545826)"
  by (simp add: upt_conv_Cons sha1_f_def sha1_k_def rotl32_def)

lemma long_password_compress0:
  "sha1_compress [112, 108, 110, 108, 114, 116, 102, 112, 105, 106, 112, 117, 104, 113, 121, 108, 120, 98, 103, 113, 105, 105, 121, 105, 112, 105, 101, 121, 120, 118, 102, 115, 97, 118, 122, 103, 120, 98, 98, 99, 102, 117, 115, 113, 107, 111, 122, 119, 112, 110, 103, 115, 121, 101, 106, 113, 108, 109, 106, 115, 121, 116, 114, 109]
     (1732584193, 4023233417, 2562383102, 271733878, 3285377520) =
     (356284233, 471747799, 620032627, 2885361998, 1665956050)"
  unfolding sha1_compress.simps rounds_split long_password_words0 long_password_rounds0_0 long_password_rounds0_20 long_password_rounds0_40 long_password_rounds0_60
  by simp

lemma long_password_words1:
  "block_words [100, 128, 0, 0, 0, 0, 0, 0, 0, 0, 0, 0, 0, 0, 0, 0, 0, 0, 0, 0, 0, 0, 0, 0, 0, 0, 0, 0, 0, 0, 0, 0, 0, 0, 0, 0, 0, 0, 0, 0, 0, 0, 0, 0, 0, 0, 0, 0, 0, 0, 0, 0, 0, 0, 0, 0, 0, 0, 0, 0, 0, 0, 2, 8] =
     [1686110208, 0, 0, 0, 0, 0, 0, 0, 0, 0, 0, 0, 0, 0, 0, 520]"
  by (simp add: block_words_def word_of_bytes_def upt_conv_Cons)

lemma long_password_rounds1_0:
  "fold sha1_step [0..<20]
     ([1686110208, 0, 0, 0, 0, 0, 0, 0, 0, 0, 0, 0, 0, 0, 0, 520],
      356284233, 471747799, 620032627, 2885361998, 1665956050) =
     ([0, 2080, 603979779, 1040, 2449477697, 1207959558, 0, 8320, 2415919116, 5200, 3657449735, 536874025, 3053453314, 33280, 1073746034, 1207980358],
      1837525643, 3831175630, 3895418203, 841796155, 4024630883)"
  by (simp add: upt_conv_Cons sha1_f_def sha1_k_def rotl32_def)

lemma long_password_rounds1_20:
  "fold sha1_step [20..<40]
     ([0, 2080, 603979779, 1040, 2449477697, 1207959558, 0, 8320, 2415919116, 5200, 3657449735, 536874025, 3053453314, 33280, 1073746034, 1207980358],
      1837525643, 3831175630, 3895418203, 841796155, 4024630883) =
     ([1207959759, 83200, 2684620925, 51890, 1140850728, 536640, 1208031074, 3355782274, 2081440255, 66120, 2147504420, 1747031135, 3355446514, 1364480, 1078003688, 850528],
      4013985704, 2825256394, 563370367, 2429421564, 2573865399)"
  by (simp add: upt_conv_Cons sha1_f_def sha1_k_def rotl32_def)

lemma long_password_rounds1_40:
  "fold sha1_step [40..<60]
     ([1207959759, 83200, 2684620925, 51890, 1140850728, 536640, 1208031074, 3355782274, 2081440255, 66120, 2147504420, 1747031135, 3355446514, 1364480, 1078003688, 850528],
      4013985704, 2825256394, 563370367, 2429421564, 2573865399) =
     ([2298748728, 1143232, 3892380211, 2182715172, 2818625281, 21299200, 68254112, 2160767588, 10308, 137379840, 18309704, 86811208, 2151808880, 16993280, 2152818148, 26597745],
      92181939, 2132120440, 1828463216, 542776189, 3141559992)"
  by (simp add: upt_conv_Cons sha1_f_def sha1_k_def rotl32_def)

lemma long_password_rounds1_60:
  "fold sha1_step [60..<80]
     ([2298748728, 1143232, 3892380211, 2182715172, 2818625281, 21299200, 68254112, 2160767588, 10308, 137379840, 18309704, 86811208, 2151808880, 16993280, 2152818148, 26597745],
      92181939, 2132120440, 1828463216, 542776189, 3141559992) =
     ([1896325026, 51651812, 292779976, 4040255855, 2216638701, 293086976, 3775017091, 429044354, 3235791980, 3305177645, 2440602720, 1251140836, 2640016, 810882312, 3072544678, 749642277],
      1342567439, 892737950, 494697908, 3076080147, 249163352)"
  by (simp add: upt_conv_Cons sha1_f_def sha1_k_def rotl32_def)

lemma long_password_compress1:
  "sha1_compress [100, 128, 0, 0, 0, 0, 0, 0, 0, 0, 0, 0, 0, 0, 0, 0, 0, 0, 0, 0, 0, 0, 0, 0, 0, 0, 0, 0, 0, 0, 0, 0, 0, 0, 0, 0, 0, 0, 0, 0, 0, 0, 0, 0, 0, 0, 0, 0, 0, 0, 0, 0, 0, 0, 0, 0, 0, 0, 0, 0, 0, 0, 2, 8]
     (356284233, 471747799, 620032627, 2885361998, 1665956050) =
     (1698851672, 1364485749, 1114730535, 1666474849, 1915119402)"
  unfolding sha1_compress.simps rounds_split long_password_words1 long_password_rounds1_0 long_password_rounds1_20 long_password_rounds1_40 long_password_rounds1_60
  by simp

lemma long_password_digest:
  "sha1 [112, 108, 110, 108, 114, 116, 102, 112, 105, 106, 112, 117, 104, 113, 121, 108, 120, 98, 103, 113, 105, 105, 121, 105, 112, 105, 101, 121, 120, 118, 102, 115, 97, 118, 122, 103, 120, 98, 98, 99, 102, 117, 115, 113, 107, 111, 122, 119, 112, 110, 103, 115, 121, 101, 106, 113, 108, 109, 106, 115, 121, 116, 114, 109, 100] =
     [101, 66, 107, 88, 81, 84, 102, 117, 66, 113, 112, 39, 99, 84, 99, 97, 114, 38, 103, 42]"
  by (simp add: sha1_def long_password_pad long_password_blocks sha1_init_def long_password_compress0 long_password_compress1 bytes_of_word_def
      del: sha1_compress.simps)

lemma hmac_sha1_key_block:
  "hmac_key_block p1 = hmac_key_block p2 \<Longrightarrow> hmac_sha1 p1 m = hmac_sha1 p2 m"
  by (simp add: hmac_sha1_def)

lemma pbkdf2_key_block:
  assumes "hmac_key_block p1 = hmac_key_block p2"
  shows "pbkdf2_hmac_sha1 p1 salt iter keylen = pbkdf2_hmac_sha1 p2 salt iter keylen"
proof -
  have h: "hmac_sha1 p1 = hmac_sha1 p2"
    by (rule ext) (rule hmac_sha1_key_block [OF assms])
  have "pbkdf2_iter p1 = pbkdf2_iter p2"
    by (rule ext, rule ext) (simp add: pbkdf2_iter_def h)
  then have "pbkdf2_block p1 salt iter = pbkdf2_block p2 salt iter"
    by (rule_tac ext) (simp add: pbkdf2_block_def h)
  then show ?thesis by (simp add: pbkdf2_hmac_sha1_def)
qed

lemma long_password_bytes:
  "map of_char ''plnlrtfpijpuhqylxbgqiiyipieyxvfsavzgxbbcfusqkozwpngsyejqlmjsytrmd'' =
     ([112, 108, 110, 108, 114, 116, 102, 112, 105, 106, 112, 117, 104, 113, 121, 108, 120,
       98, 103, 113, 105, 105, 121, 105, 112, 105, 101, 121, 120, 118, 102, 115, 97, 118,
       122, 103, 120, 98, 98, 99, 102, 117, 115, 113, 107, 111, 122, 119, 112, 110, 103,
       115, 121, 101, 106, 113, 108, 109, 106, 115, 121, 116, 114, 109, 100] :: byte list)"
  by simp

lemma digest_password_bytes:
  "map of_char ''eBkXQTfuBqp'cTcar&g*'' =
     ([101, 66, 107, 88, 81, 84, 102, 117, 66, 113, 112, 39, 99, 84, 99, 97, 114, 38, 103,
       42] :: byte list)"
  by simp

lemma long_password_key_block:
  "hmac_key_block
     (map of_char ''plnlrtfpijpuhqylxbgqiiyipieyxvfsavzgxbbcfusqkozwpngsyejqlmjsytrmd'') =
   hmac_key_block (map of_char ''eBkXQTfuBqp'cTcar&g*'')"
  unfolding long_password_bytes digest_password_bytes
  by (simp add: hmac_key_block_def long_password_digest)

lemma of_char_char_of_byte: "map of_char (map (char_of \<circ> unat) d) = (d :: byte list)"
proof -
  have "of_char (char_of (unat b)) = b" for b :: byte
  proof -
    have "(of_char (char_of (unat b)) :: byte) = of_nat (of_char (char_of (unat b)))"
      by (simp only: of_nat_of_char)
    also have "\<dots> = of_nat (unat b mod 256)" by (simp only: of_char_of)
    also have "\<dots> = b"
      using unsigned_less [of b, where 'a = nat] by simp
    finally show ?thesis .
  qed
  then show ?thesis by (induction d) simp_all
qed

lemma digest_key_block:
  assumes "64 < length p"
  shows "hmac_key_block (map of_char (map (char_of \<circ> unat) (sha1 p))) = hmac_key_block p"
  unfolding of_char_char_of_byte using assms by (simp add: hmac_key_block_def)

lemma digest_password:
  assumes "64 < length W" and "length W < 2 ^ 31"
  shows "generateKeyFromPassword (map (char_of \<circ> unat) (sha1 (map of_char W))) =
         generateKeyFromPassword W"
proof -
  have "length (map (char_of \<circ> unat) (sha1 (map of_char W))) < 2 ^ 31"
    by simp
  then have "generateKeyFromPassword (map (char_of \<circ> unat) (sha1 (map of_char W))) =
      Inr (pbkdf2_hmac_sha1 (map of_char (map (char_of \<circ> unat) (sha1 (map of_char W))))
             (map of_char ''12345678'') 10000 32)"
    by (rule generateKeyFromPassword_ok)
  moreover have "hmac_key_block (map of_char (map (char_of \<circ> unat) (sha1 (map of_char W)))) =
      hmac_key_block (map of_char W)"
    by (rule digest_key_block) (simp add: assms(1))
  then have "pbkdf2_hmac_sha1 (map of_char (map (char_of \<circ> unat) (sha1 (map of_char W))))
        (map of_char ''12345678'') 10000 32 =
      pbkdf2_hmac_sha1 (map of_char W) (map of_char ''12345678'') 10000 32"
    by (rule pbkdf2_key_block)
  ultimately show ?thesis
    unfolding generateKeyFromPassword_ok [OF assms(2)] by (simp only:)
qed

text \<open>
  C4 (as amended). For every password shorter than \<open>2^31\<close> bytes a call returns the
  32 bytes that PBKDF2-HMAC-SHA1 computes from the password, the salt \<open>12345678\<close> and
  10000 iterations, so the result is a function of the password alone. Distinct
  passwords need not derive distinct keys: HMAC replaces a key longer than its 64-byte
  block by the SHA-1 digest of the key, so a password longer than 64 bytes and the
  20 characters of its digest derive the same key.
\<close>

theorem key_derivation:
  assumes "length W < 2 ^ 31"
  shows "generateKeyFromPassword W =
           Inr (pbkdf2_hmac_sha1 (map of_char W) (map of_char ''12345678'') 10000 32) \<and>
         length (pbkdf2_hmac_sha1 (map of_char W) (map of_char ''12345678'') 10000 32) = 32 \<and>
         (64 < length W \<longrightarrow>
            generateKeyFromPassword (map (char_of \<circ> unat) (sha1 (map of_char W))) =
              generateKeyFromPassword W \<and>
            map (char_of \<circ> unat) (sha1 (map of_char W)) \<noteq> W)"
proof (intro conjI impI)
  show "generateKeyFromPassword W =
          Inr (pbkdf2_hmac_sha1 (map of_char W) (map of_char ''12345678'') 10000 32)"
    by (rule generateKeyFromPassword_ok [OF assms])
  show "length (pbkdf2_hmac_sha1 (map of_char W) (map of_char ''12345678'') 10000 32) = 32"
    by (rule length_pbkdf2_32)
next
  assume l: "64 < length W"
  show "generateKeyFromPassword (map (char_of \<circ> unat) (sha1 (map of_char W))) =
          generateKeyFromPassword W"
    by (rule digest_password [OF l assms])
  show "map (char_of \<circ> unat) (sha1 (map of_char W)) \<noteq> W"
  proof
    assume "map (char_of \<circ> unat) (sha1 (map of_char W)) = W"
    then have "length W = length (map (char_of \<circ> unat) (sha1 (map of_char W)))"
      by (rule arg_cong [OF sym])
    then show False using l by simp
  qed
qed

theorem key_derivation_witness:
  "generateKeyFromPassword (replicate 65 (CHR ''a'')) =
     Inr (pbkdf2_hmac_sha1 (map of_char (replicate 65 (CHR ''a'')))
            (map of_char ''12345678'') 10000 32) \<and>
   length (pbkdf2_hmac_sha1 (map of_char (replicate 65 (CHR ''a'')))
            (map of_char ''12345678'') 10000 32) = 32 \<and>
   generateKeyFromPassword (map (char_of \<circ> unat) (sha1 (map of_char (replicate 65 (CHR ''a''))))) =
     generateKeyFromPassword (replicate 65 (CHR ''a'')) \<and>
   map (char_of \<circ> unat) (sha1 (map of_char (replicate 65 (CHR ''a'')))) \<noteq> replicate 65 (CHR ''a'')"
proof -
  have a: "length (replicate 65 (CHR ''a'')) < 2 ^ 31" by simp
  have b: "64 < length (replicate 65 (CHR ''a''))" by simp
  note t = key_derivation [OF a]
  note t1 = t [THEN conjunct1] and t2 = t [THEN conjunct2, THEN conjunct1]
    and t3 = t [THEN conjunct2, THEN conjunct2, THEN mp, OF b]
  show ?thesis by (intro conjI) (rule t1 t2 t3 [THEN conjunct1] t3 [THEN conjunct2])+
qed

text \<open>
  C4 as stated fails: two distinct passwords that derive the same key, a password of
  65 letters and the 20 characters that are its SHA-1 digest.
\<close>

theorem distinct_passwords_same_key:
  "generateKeyFromPassword
     ''plnlrtfpijpuhqylxbgqiiyipieyxvfsavzgxbbcfusqkozwpngsyejqlmjsytrmd'' =
   generateKeyFromPassword ''eBkXQTfuBqp'cTcar&g*'' \<and>
   generateKeyFromPassword ''eBkXQTfuBqp'cTcar&g*'' =
     Inr (pbkdf2_hmac_sha1 (map of_char ''eBkXQTfuBqp'cTcar&g*'')
            (map of_char ''12345678'') 10000 32) \<and>
   ''plnlrtfpijpuhqylxbgqiiyipieyxvfsavzgxbbcfusqkozwpngsyejqlmjsytrmd'' \<noteq>
     ''eBkXQTfuBqp'cTcar&g*''"
proof -
  have a: "generateKeyFromPassword
             ''plnlrtfpijpuhqylxbgqiiyipieyxvfsavzgxbbcfusqkozwpngsyejqlmjsytrmd'' =
           Inr (pbkdf2_hmac_sha1
                  (map of_char
                     ''plnlrtfpijpuhqylxbgqiiyipieyxvfsavzgxbbcfusqkozwpngsyejqlmjsytrmd'')
                  (map of_char ''12345678'') 10000 32)"
    by (rule generateKeyFromPassword_ok) simp
  have b: "generateKeyFromPassword ''eBkXQTfuBqp'cTcar&g*'' =
           Inr (pbkdf2_hmac_sha1 (map of_char ''eBkXQTfuBqp'cTcar&g*'')
                  (map of_char ''12345678'') 10000 32)"
    by (rule generateKeyFromPassword_ok) simp
  have c: "''plnlrtfpijpuhqylxbgqiiyipieyxvfsavzgxbbcfusqkozwpngsyejqlmjsytrmd'' \<noteq>
           ''eBkXQTfuBqp'cTcar&g*''"
    by simp
  show ?thesis
    unfolding a b pbkdf2_key_block [OF long_password_key_block]
    using c by simp
qed

end
